theory Spec2Isabelle
  imports Main "HOL-Library.AList"
begin

section \<open>RandomDict: a mapping with constant-time random selection\<close>

text \<open>
  The class \<^verbatim>\<open>RandomDict\<close> of \<^verbatim>\<open>randomdict.py\<close> keeps three fields:
  \<^verbatim>\<open>_keys\<close>, a Python dict from key to slot number, \<^verbatim>\<open>_values\<close>, a Python list
  of (key, value) pairs, and \<^verbatim>\<open>last_index\<close>, an integer that starts at -1.

  A Python dict is modelled as an association list in insertion order
  (\<open>map_of\<close> reads it, \<open>AList.update\<close> overwrites in place or appends,
  \<open>AList.delete\<close> removes), a Python list as a HOL list, Python integers as \<open>int\<close>.
  Every exception is a value; a method that mutates \<^verbatim>\<open>self\<close> returns the outcome
  together with the state as it is when the method returns or raises.
\<close>

subsection \<open>Exceptions\<close>

datatype 'k exc_arg = ArgKey 'k | ArgMsg string | NoArg

datatype 'k error = KeyError "'k exc_arg" | IndexError | TypeError

fun is_KeyError :: "'k error \<Rightarrow> bool" where
  "is_KeyError (KeyError a) = True"
| "is_KeyError IndexError = False"
| "is_KeyError TypeError = False"

subsection \<open>Python lists\<close>

text \<open>
  Python resolves a list index against the length of the list: an index from 0 up to
  the length is taken as it is, an index from minus the length up to -1 counts from
  the end, and anything else is out of range.
\<close>

definition norm_index :: "nat \<Rightarrow> int \<Rightarrow> nat option" where
  "norm_index n i =
     (if 0 \<le> i \<and> i < int n then Some (nat i)
      else if - int n \<le> i \<and> i < 0 then Some (nat (int n + i))
      else None)"

text \<open>\<^verbatim>\<open>xs[i]\<close>; out of range raises IndexError.\<close>

definition list_getitem :: "'a list \<Rightarrow> int \<Rightarrow> 'k error + 'a" where
  "list_getitem xs i =
     (case norm_index (length xs) i of
        None \<Rightarrow> Inl IndexError
      | Some j \<Rightarrow> Inr (xs ! j))"

text \<open>\<^verbatim>\<open>xs[i] = x\<close>; out of range raises IndexError.\<close>

definition list_setitem :: "'a list \<Rightarrow> int \<Rightarrow> 'a \<Rightarrow> 'k error + 'a list" where
  "list_setitem xs i x =
     (case norm_index (length xs) i of
        None \<Rightarrow> Inl IndexError
      | Some j \<Rightarrow> Inr (xs[j := x]))"

text \<open>\<^verbatim>\<open>xs.pop()\<close>: the last element and the shortened list; IndexError on an empty list.\<close>

definition list_pop :: "'a list \<Rightarrow> 'k error + ('a \<times> 'a list)" where
  "list_pop xs = (if xs = [] then Inl IndexError else Inr (last xs, butlast xs))"

subsection \<open>The container state\<close>

record ('k, 'v) RandomDict =
  rd_keys :: "('k \<times> int) list"
  rd_values :: "('k \<times> 'v) list"
  last_index :: int

text \<open>The three assignments at the start of \<^verbatim>\<open>__init__\<close>.\<close>

definition empty_rd :: "('k, 'v) RandomDict" where
  "empty_rd = \<lparr>rd_keys = [], rd_values = [], last_index = -1\<rparr>"

text \<open>\<^verbatim>\<open>__len__\<close>\<close>

definition len :: "('k, 'v) RandomDict \<Rightarrow> int" where
  "len rd = last_index rd + 1"

text \<open>\<^verbatim>\<open>__iter__\<close>: the keys of \<^verbatim>\<open>_keys\<close> in the dict's order.\<close>

definition iter :: "('k, 'v) RandomDict \<Rightarrow> 'k list" where
  "iter rd = map fst (rd_keys rd)"

text \<open>\<^verbatim>\<open>__setitem__\<close>\<close>

definition setitem ::
  "('k, 'v) RandomDict \<Rightarrow> 'k \<Rightarrow> 'v \<Rightarrow> ('k error + unit) \<times> ('k, 'v) RandomDict" where
  "setitem rd key val =
     (let i = (case map_of (rd_keys rd) key of None \<Rightarrow> -1 | Some j \<Rightarrow> j)
      in if i > -1 then
           (case list_setitem (rd_values rd) i (key, val) of
              Inl e \<Rightarrow> (Inl e, rd)
            | Inr vs \<Rightarrow> (Inr (), rd\<lparr>rd_values := vs\<rparr>))
         else
           (let li = last_index rd + 1
            in (Inr (), rd\<lparr>rd_keys := AList.update key li (rd_keys rd),
                           rd_values := rd_values rd @ [(key, val)],
                           last_index := li\<rparr>)))"

text \<open>
  \<^verbatim>\<open>__delitem__\<close>. The lookup \<^verbatim>\<open>self._keys[key]\<close> raises before anything is
  assigned; \<^verbatim>\<open>self._values.pop()\<close> raises on an empty list; the assignment
  \<^verbatim>\<open>self._values[i] = ...\<close> can raise after the pop has already shortened the list.
\<close>

definition delitem ::
  "('k, 'v) RandomDict \<Rightarrow> 'k \<Rightarrow> ('k error + unit) \<times> ('k, 'v) RandomDict" where
  "delitem rd key =
     (case map_of (rd_keys rd) key of
        None \<Rightarrow> (Inl (KeyError (ArgKey key)), rd)
      | Some i \<Rightarrow>
         (case list_pop (rd_values rd) of
            Inl e \<Rightarrow> (Inl e, rd)
          | Inr ((move_key, move_val), vs) \<Rightarrow>
             (if i \<noteq> last_index rd then
                (case list_setitem vs i (move_key, move_val) of
                   Inl e \<Rightarrow> (Inl e, rd\<lparr>rd_values := vs\<rparr>)
                 | Inr vs' \<Rightarrow>
                    (Inr (), rd\<lparr>rd_keys := AList.delete key (AList.update move_key i (rd_keys rd)),
                                 rd_values := vs',
                                 last_index := last_index rd - 1\<rparr>))
              else
                (Inr (), rd\<lparr>rd_keys := AList.delete key (rd_keys rd),
                             rd_values := vs,
                             last_index := last_index rd - 1\<rparr>))))"

text \<open>\<^verbatim>\<open>__getitem__\<close>\<close>

definition getitem :: "('k, 'v) RandomDict \<Rightarrow> 'k \<Rightarrow> 'k error + 'v" where
  "getitem rd key =
     (case map_of (rd_keys rd) key of
        None \<Rightarrow> Inl (KeyError (ArgKey key))
      | Some i \<Rightarrow>
         (case list_getitem (rd_values rd) i of
            Inl e \<Rightarrow> Inl e
          | Inr kv \<Rightarrow> Inr (snd kv)))"

text \<open>
  \<^verbatim>\<open>random_key\<close>. The argument \<open>i\<close> is the integer that
  \<^verbatim>\<open>random.randint(0, self.last_index)\<close> returns; \<open>randint_range\<close> is the set of
  integers that call can return (both ends inclusive).
\<close>

definition randint_range :: "int \<Rightarrow> int \<Rightarrow> int set" where
  "randint_range a b = {a..b}"

definition random_key :: "('k, 'v) RandomDict \<Rightarrow> int \<Rightarrow> 'k error + 'k" where
  "random_key rd i =
     (if len rd = 0 then Inl (KeyError (ArgMsg ''RandomDict is empty''))
      else (case list_getitem (rd_values rd) i of
              Inl e \<Rightarrow> Inl e
            | Inr kv \<Rightarrow> Inr (fst kv)))"

text \<open>\<^verbatim>\<open>random_value\<close>: \<^verbatim>\<open>self[self.random_key()]\<close>\<close>

definition random_value :: "('k, 'v) RandomDict \<Rightarrow> int \<Rightarrow> 'k error + 'v" where
  "random_value rd i =
     (case random_key rd i of Inl e \<Rightarrow> Inl e | Inr k \<Rightarrow> getitem rd k)"

text \<open>\<^verbatim>\<open>random_item\<close>\<close>

definition random_item :: "('k, 'v) RandomDict \<Rightarrow> int \<Rightarrow> 'k error + ('k \<times> 'v)" where
  "random_item rd i =
     (case random_key rd i of
        Inl e \<Rightarrow> Inl e
      | Inr k \<Rightarrow> (case getitem rd k of Inl e \<Rightarrow> Inl e | Inr v \<Rightarrow> Inr (k, v)))"

text \<open>The test \<^verbatim>\<open>key in self._keys\<close> of \<^verbatim>\<open>__getitem__\<close>: the key is present.\<close>

definition present :: "('k, 'v) RandomDict \<Rightarrow> 'k \<Rightarrow> bool" where
  "present rd key = (map_of (rd_keys rd) key \<noteq> None)"

subsection \<open>Construction\<close>

text \<open>
  The loop \<^verbatim>\<open>for key, value in pairs: self[key] = value\<close>. An exception of
  \<^verbatim>\<open>__setitem__\<close> ends it.
\<close>

fun setitems ::
  "('k, 'v) RandomDict \<Rightarrow> ('k \<times> 'v) list \<Rightarrow> ('k error + unit) \<times> ('k, 'v) RandomDict" where
  "setitems rd [] = (Inr (), rd)"
| "setitems rd ((key, val) # rest) =
     (case setitem rd key val of
        (Inl e, rd') \<Rightarrow> (Inl e, rd')
      | (Inr u, rd') \<Rightarrow> setitems rd' rest)"

text \<open>
  \<^verbatim>\<open>update\<close> is not defined in \<^verbatim>\<open>randomdict.py\<close>: the class inherits it from
  the standard library's \<^verbatim>\<open>collections.abc.MutableMapping\<close>, whose signature is
  \<^verbatim>\<open>update(self, other=(), /, **kwds)\<close>. It takes at most one positional source
  (more raise TypeError before anything is stored), stores the source's pairs in their
  order through \<^verbatim>\<open>__setitem__\<close>, then the keyword bindings in their order. Each
  source is given here as the list of pairs that iterating it yields, and the keyword
  bindings as the list of their (name, value) pairs; a keyword name is a string, so
  there are keyword bindings only where strings are keys.
\<close>

definition update ::
  "('k, 'v) RandomDict \<Rightarrow> ('k \<times> 'v) list list \<Rightarrow> ('k \<times> 'v) list
     \<Rightarrow> ('k error + unit) \<times> ('k, 'v) RandomDict" where
  "update rd args kwargs =
     (case args of
        [] \<Rightarrow> setitems rd kwargs
      | [other] \<Rightarrow>
          (case setitems rd other of
             (Inl e, rd') \<Rightarrow> (Inl e, rd')
           | (Inr u, rd') \<Rightarrow> setitems rd' kwargs)
      | _ # _ # _ \<Rightarrow> (Inl TypeError, rd))"

text \<open>\<^verbatim>\<open>__init__\<close>: an exception leaves the caller without an instance.\<close>

definition init ::
  "('k \<times> 'v) list list \<Rightarrow> ('k \<times> 'v) list \<Rightarrow> 'k error + ('k, 'v) RandomDict" where
  "init args kwargs =
     (case update empty_rd args kwargs of
        (Inl e, rd) \<Rightarrow> Inl e
      | (Inr u, rd) \<Rightarrow> Inr rd)"

text \<open>\<^verbatim>\<open>fromkeys\<close>: \<^verbatim>\<open>rd = cls()\<close>, then the loop over the keys.\<close>

fun fromkeys_loop ::
  "('k, 'v) RandomDict \<Rightarrow> 'k list \<Rightarrow> 'v \<Rightarrow> ('k error + unit) \<times> ('k, 'v) RandomDict" where
  "fromkeys_loop rd [] value = (Inr (), rd)"
| "fromkeys_loop rd (key # rest) value =
     (case setitem rd key value of
        (Inl e, rd') \<Rightarrow> (Inl e, rd')
      | (Inr u, rd') \<Rightarrow> fromkeys_loop rd' rest value)"

definition fromkeys :: "'k list \<Rightarrow> 'v \<Rightarrow> 'k error + ('k, 'v) RandomDict" where
  "fromkeys keys value =
     (case init [] [] of
        Inl e \<Rightarrow> Inl e
      | Inr rd \<Rightarrow>
          (case fromkeys_loop rd keys value of
             (Inl e, rd') \<Rightarrow> Inl e
           | (Inr u, rd') \<Rightarrow> Inr rd'))"

subsection \<open>Pop-style methods\<close>

text \<open>
  \<^verbatim>\<open>popitem\<close> and \<^verbatim>\<open>pop\<close> are not defined in \<^verbatim>\<open>randomdict.py\<close> either: the
  class inherits them from \<^verbatim>\<open>collections.abc.MutableMapping\<close>, which builds them
  from \<^verbatim>\<open>__iter__\<close>, \<^verbatim>\<open>__getitem__\<close> and \<^verbatim>\<open>__delitem__\<close>.
  \<^verbatim>\<open>popitem\<close> takes the first key of the iteration and raises a bare KeyError when
  there is none. \<^verbatim>\<open>pop\<close> looks the key up; on KeyError it re-raises when no default
  was passed (\<open>None\<close> here) and returns the default otherwise.
\<close>

definition popitem ::
  "('k, 'v) RandomDict \<Rightarrow> ('k error + ('k \<times> 'v)) \<times> ('k, 'v) RandomDict" where
  "popitem rd =
     (case iter rd of
        [] \<Rightarrow> (Inl (KeyError NoArg), rd)
      | key # rest \<Rightarrow>
          (case getitem rd key of
             Inl e \<Rightarrow> (Inl e, rd)
           | Inr value \<Rightarrow>
               (case delitem rd key of
                  (Inl e, rd') \<Rightarrow> (Inl e, rd')
                | (Inr u, rd') \<Rightarrow> (Inr (key, value), rd'))))"

definition pop ::
  "('k, 'v) RandomDict \<Rightarrow> 'k \<Rightarrow> 'v option \<Rightarrow> ('k error + 'v) \<times> ('k, 'v) RandomDict" where
  "pop rd key dflt =
     (case getitem rd key of
        Inl (KeyError a) \<Rightarrow>
          (case dflt of None \<Rightarrow> (Inl (KeyError a), rd) | Some d \<Rightarrow> (Inr d, rd))
      | Inl IndexError \<Rightarrow> (Inl IndexError, rd)
      | Inl TypeError \<Rightarrow> (Inl TypeError, rd)
      | Inr value \<Rightarrow>
          (case delitem rd key of
             (Inl e, rd') \<Rightarrow> (Inl e, rd')
           | (Inr u, rd') \<Rightarrow> (Inr value, rd')))"

subsection \<open>Equality\<close>

text \<open>
  \<^verbatim>\<open>__eq__\<close> is inherited from \<^verbatim>\<open>collections.abc.Mapping\<close>:
  \<^verbatim>\<open>dict(self.items()) == dict(other.items())\<close>. The items view yields
  \<^verbatim>\<open>(key, self[key])\<close> for each key of \<^verbatim>\<open>__iter__\<close>; \<^verbatim>\<open>dict(...)\<close> stores the
  pairs one after the other; two dicts are equal when they have the same number of
  keys and every key of the first is in the second with an equal value.
\<close>

fun items_loop :: "('k, 'v) RandomDict \<Rightarrow> 'k list \<Rightarrow> 'k error + ('k \<times> 'v) list" where
  "items_loop rd [] = Inr []"
| "items_loop rd (key # rest) =
     (case getitem rd key of
        Inl e \<Rightarrow> Inl e
      | Inr v \<Rightarrow>
          (case items_loop rd rest of
             Inl e \<Rightarrow> Inl e
           | Inr kvs \<Rightarrow> Inr ((key, v) # kvs)))"

definition items :: "('k, 'v) RandomDict \<Rightarrow> 'k error + ('k \<times> 'v) list" where
  "items rd = items_loop rd (iter rd)"

fun dict_of :: "('k \<times> 'a) list \<Rightarrow> ('k \<times> 'a) list \<Rightarrow> ('k \<times> 'a) list" where
  "dict_of d [] = d"
| "dict_of d ((k, v) # rest) = dict_of (AList.update k v d) rest"

definition dict_eq :: "('k \<times> 'a) list \<Rightarrow> ('k \<times> 'a) list \<Rightarrow> bool" where
  "dict_eq a b = (length a = length b \<and> list_all (\<lambda>(k, v). map_of b k = Some v) a)"

definition eq :: "('k, 'v) RandomDict \<Rightarrow> ('k, 'v) RandomDict \<Rightarrow> 'k error + bool" where
  "eq self other =
     (case items self of
        Inl e \<Rightarrow> Inl e
      | Inr a \<Rightarrow>
          (case items other of
             Inl e \<Rightarrow> Inl e
           | Inr b \<Rightarrow> Inr (dict_eq (dict_of [] a) (dict_of [] b))))"

subsection \<open>Instances as objects: the store\<close>

text \<open>
  Whether two instances share their dict or their list decides what a copy is worth,
  so for \<^verbatim>\<open>copy\<close> the objects are placed in a store. The store holds the dict
  objects, the list objects and the instances, each kind in a sequence whose positions
  are the addresses; a new object goes to the end. An instance holds the addresses of
  its \<^verbatim>\<open>_keys\<close> and \<^verbatim>\<open>_values\<close> and its \<^verbatim>\<open>last_index\<close>. The record
  \<open>RandomDict\<close> above is what \<open>load\<close> reads through the references of an instance;
  a method runs on that and \<open>store\<close> writes the result back to the same objects.
\<close>

record inst =
  keys_ref :: nat
  values_ref :: nat
  inst_last_index :: int

record ('k, 'v) heap =
  dict_objs :: "('k \<times> int) list list"
  list_objs :: "('k \<times> 'v) list list"
  inst_objs :: "inst list"

definition valid :: "('k, 'v) heap \<Rightarrow> nat \<Rightarrow> bool" where
  "valid h a = (a < length (inst_objs h) \<and>
                keys_ref (inst_objs h ! a) < length (dict_objs h) \<and>
                values_ref (inst_objs h ! a) < length (list_objs h))"

definition load :: "('k, 'v) heap \<Rightarrow> nat \<Rightarrow> ('k, 'v) RandomDict" where
  "load h a = \<lparr>rd_keys = dict_objs h ! keys_ref (inst_objs h ! a),
              rd_values = list_objs h ! values_ref (inst_objs h ! a),
              last_index = inst_last_index (inst_objs h ! a)\<rparr>"

definition store :: "('k, 'v) heap \<Rightarrow> nat \<Rightarrow> ('k, 'v) RandomDict \<Rightarrow> ('k, 'v) heap" where
  "store h a rd =
     h\<lparr>dict_objs := (dict_objs h)[keys_ref (inst_objs h ! a) := rd_keys rd],
       list_objs := (list_objs h)[values_ref (inst_objs h ! a) := rd_values rd],
       inst_objs := (inst_objs h)[a := (inst_objs h ! a)\<lparr>inst_last_index := last_index rd\<rparr>]\<rparr>"

definition h_setitem ::
  "('k, 'v) heap \<Rightarrow> nat \<Rightarrow> 'k \<Rightarrow> 'v \<Rightarrow> ('k error + unit) \<times> ('k, 'v) heap" where
  "h_setitem h self key val =
     (case setitem (load h self) key val of (res, rd') \<Rightarrow> (res, store h self rd'))"

definition h_getitem :: "('k, 'v) heap \<Rightarrow> nat \<Rightarrow> 'k \<Rightarrow> 'k error + 'v" where
  "h_getitem h self key = getitem (load h self) key"

definition h_eq :: "('k, 'v) heap \<Rightarrow> nat \<Rightarrow> nat \<Rightarrow> 'k error + bool" where
  "h_eq h self other = eq (load h self) (load h other)"

text \<open>
  \<^verbatim>\<open>RandomDict()\<close>: a new instance with a new dict and a new list, in the state
  that \<^verbatim>\<open>__init__\<close> leaves.
\<close>

definition new_instance :: "('k, 'v) heap \<Rightarrow> ('k, 'v) RandomDict \<Rightarrow> nat \<times> ('k, 'v) heap" where
  "new_instance h rd =
     (length (inst_objs h),
      h\<lparr>dict_objs := dict_objs h @ [rd_keys rd],
        list_objs := list_objs h @ [rd_values rd],
        inst_objs := inst_objs h @ [\<lparr>keys_ref = length (dict_objs h), values_ref = length (list_objs h),
                             inst_last_index = last_index rd\<rparr>]\<rparr>)"

text \<open>
  \<^verbatim>\<open>copy\<close>: \<^verbatim>\<open>self._keys.copy()\<close> and \<^verbatim>\<open>self._values[:]\<close> each make a new
  object with the same content; the three assignments set the fields of the new
  instance.
\<close>

definition copy :: "('k, 'v) heap \<Rightarrow> nat \<Rightarrow> 'k error + (nat \<times> ('k, 'v) heap)" where
  "copy h self =
     (case init [] [] of
        Inl e \<Rightarrow> Inl e
      | Inr rd0 \<Rightarrow>
          (let (new_rd, h1) = new_instance h rd0;
               d = length (dict_objs h1);
               h2 = h1\<lparr>dict_objs := dict_objs h1 @ [dict_objs h1 ! keys_ref (inst_objs h1 ! self)]\<rparr>;
               h3 = h2\<lparr>inst_objs := (inst_objs h2)[new_rd := (inst_objs h2 ! new_rd)\<lparr>keys_ref := d\<rparr>]\<rparr>;
               l = length (list_objs h3);
               h4 = h3\<lparr>list_objs := list_objs h3 @ [list_objs h3 ! values_ref (inst_objs h3 ! self)]\<rparr>;
               h5 = h4\<lparr>inst_objs := (inst_objs h4)[new_rd := (inst_objs h4 ! new_rd)\<lparr>values_ref := l\<rparr>]\<rparr>;
               h6 = h5\<lparr>inst_objs := (inst_objs h5)[new_rd := (inst_objs h5 ! new_rd)
                                       \<lparr>inst_last_index := inst_last_index (inst_objs h5 ! self)\<rparr>]\<rparr>
           in Inr (new_rd, h6)))"

text \<open>What a lookup finds, as a partial function of the key.\<close>

definition contents :: "('k, 'v) RandomDict \<Rightarrow> 'k \<Rightarrow> 'v option" where
  "contents rd k = (case getitem rd k of Inl e \<Rightarrow> None | Inr v \<Rightarrow> Some v)"

text \<open>Two instances that share neither their dict nor their list.\<close>

definition separate :: "('k, 'v) heap \<Rightarrow> nat \<Rightarrow> nat \<Rightarrow> bool" where
  "separate h a b = (a \<noteq> b \<and> keys_ref (inst_objs h ! a) \<noteq> keys_ref (inst_objs h ! b) \<and>
     values_ref (inst_objs h ! a) \<noteq> values_ref (inst_objs h ! b))"

subsection \<open>The invariants of the specification\<close>

text \<open>A Python dict holds each key once.\<close>

definition dict_ok :: "('k \<times> 'a) list \<Rightarrow> bool" where
  "dict_ok d = distinct (map fst d)"

text \<open>
  I1: for every key of the Index, the recorded position is valid and the slot there
  holds that key together with the value that a lookup of the key returns.
\<close>

definition I1 :: "('k, 'v) RandomDict \<Rightarrow> bool" where
  "I1 rd = (\<forall>(k, p) \<in> set (rd_keys rd).
              0 \<le> p \<and> p < len rd \<and> nat p < length (rd_values rd) \<and>
              fst (rd_values rd ! nat p) = k \<and>
              getitem rd k = Inr (snd (rd_values rd ! nat p)))"

text \<open>I2: the positions in use are exactly the contiguous range from 0 up to the count.\<close>

definition I2 :: "('k, 'v) RandomDict \<Rightarrow> bool" where
  "I2 rd = (snd ` set (rd_keys rd) = {0..<len rd})"

text \<open>I3: the reported length is the number of slots and the number of keys of the Index.\<close>

definition I3 :: "('k, 'v) RandomDict \<Rightarrow> bool" where
  "I3 rd = (len rd = int (length (rd_values rd)) \<and> len rd = int (length (rd_keys rd)))"

definition invar :: "('k, 'v) RandomDict \<Rightarrow> bool" where
  "invar rd = (dict_ok (rd_keys rd) \<and> I1 rd \<and> I2 rd \<and> I3 rd)"

text \<open>
  The same invariant in the form the proofs use: the Index and the Slots point at each
  other. It is shown equivalent to \<open>invar\<close> below.
\<close>

definition consistent :: "('k, 'v) RandomDict \<Rightarrow> bool" where
  "consistent rd = (distinct (map fst (rd_keys rd)) \<and>
     last_index rd = int (length (rd_values rd)) - 1 \<and>
     (\<forall>k p. map_of (rd_keys rd) k = Some p \<longrightarrow>
         0 \<le> p \<and> nat p < length (rd_values rd) \<and> fst (rd_values rd ! nat p) = k) \<and>
     (\<forall>j < length (rd_values rd). map_of (rd_keys rd) (fst (rd_values rd ! j)) = Some (int j)))"

subsection \<open>Sample states\<close>

text \<open>
  The state after \<^verbatim>\<open>d["a"] = 1; d["b"] = 2; d["c"] = 3\<close> on an empty container
  (lemma \<open>abc_built\<close> below).
\<close>

definition abc :: "(string, int) RandomDict" where
  "abc = \<lparr>rd_keys = [(''a'', 0), (''b'', 1), (''c'', 2)],
          rd_values = [(''a'', 1), (''b'', 2), (''c'', 3)], last_index = 2\<rparr>"

text \<open>
  The state after \<^verbatim>\<open>d["c"] = 3; d["b"] = 2; d["a"] = 1\<close>: the bindings of \<open>abc\<close>
  in another slot layout (lemma \<open>cba_built\<close> below).
\<close>

definition cba :: "(string, int) RandomDict" where
  "cba = \<lparr>rd_keys = [(''c'', 0), (''b'', 1), (''a'', 2)],
          rd_values = [(''c'', 3), (''b'', 2), (''a'', 1)], last_index = 2\<rparr>"

text \<open>A store with one instance, in the sample state.\<close>

definition h0 :: "(string, int) heap" where
  "h0 = \<lparr>dict_objs = [[(''a'', 0), (''b'', 1), (''c'', 2)]],
         list_objs = [[(''a'', 1), (''b'', 2), (''c'', 3)]],
         inst_objs = [\<lparr>keys_ref = 0, values_ref = 0, inst_last_index = 2\<rparr>]\<rparr>"

section \<open>The two forms of the invariant agree\<close>

lemma norm_index_in: "0 \<le> i \<Longrightarrow> nat i < n \<Longrightarrow> norm_index n i = Some (nat i)"
  by (simp add: norm_index_def)

lemma consistent_getitem:
  "consistent rd \<Longrightarrow> map_of (rd_keys rd) k = Some p \<Longrightarrow> getitem rd k = Inr (snd (rd_values rd ! nat p))"
  by (simp add: consistent_def getitem_def list_getitem_def norm_index_in)

lemma consistent_snd_set:
  assumes "consistent rd"
  shows "snd ` set (rd_keys rd) = {0..<int (length (rd_values rd))}"
proof (rule set_eqI, rule iffI)
  fix p assume "p \<in> snd ` set (rd_keys rd)"
  then obtain k where "(k, p) \<in> set (rd_keys rd)" by force
  with assms have "map_of (rd_keys rd) k = Some p" by (simp add: consistent_def)
  with assms have "0 \<le> p \<and> nat p < length (rd_values rd)" unfolding consistent_def by blast
  then show "p \<in> {0..<int (length (rd_values rd))}" by auto
next
  fix p assume "p \<in> {0..<int (length (rd_values rd))}"
  then have "nat p < length (rd_values rd)" "int (nat p) = p" by auto
  with assms have "map_of (rd_keys rd) (fst (rd_values rd ! nat p)) = Some p"
    unfolding consistent_def by metis
  then have "(fst (rd_values rd ! nat p), p) \<in> set (rd_keys rd)" by (rule map_of_SomeD)
  then show "p \<in> snd ` set (rd_keys rd)" by force
qed

lemma consistent_length_keys:
  assumes "consistent rd"
  shows "length (rd_keys rd) = length (rd_values rd)"
proof -
  let ?ks = "rd_keys rd" and ?vs = "rd_values rd"
  have d: "distinct (map fst ?ks)" using assms by (simp add: consistent_def)
  have inj: "inj_on snd (set ?ks)"
  proof (rule inj_onI)
    fix x y assume xy: "x \<in> set ?ks" "y \<in> set ?ks" "snd x = snd y"
    obtain k p where x: "x = (k, p)" by (cases x)
    obtain k' p' where y: "y = (k', p')" by (cases y)
    from xy x y d have "map_of ?ks k = Some p" "map_of ?ks k' = Some p'" by simp_all
    with assms have "fst (?vs ! nat p) = k" "fst (?vs ! nat p') = k'" unfolding consistent_def by blast+
    with xy x y show "x = y" by simp
  qed
  have "length ?ks = card (set ?ks)"
    using d by (metis distinct_card distinct_map)
  also have "\<dots> = card (snd ` set ?ks)" using inj by (simp add: card_image)
  also have "\<dots> = length ?vs" by (simp add: consistent_snd_set [OF assms])
  finally show ?thesis .
qed

lemma consistent_I1: assumes "consistent rd" shows "I1 rd"
  unfolding I1_def
proof (clarify)
  fix k p assume "(k, p) \<in> set (rd_keys rd)"
  with assms have m: "map_of (rd_keys rd) k = Some p" by (simp add: consistent_def)
  with assms have f: "0 \<le> p" "nat p < length (rd_values rd)" "fst (rd_values rd ! nat p) = k"
    unfolding consistent_def by blast+
  from assms have "len rd = int (length (rd_values rd))" by (simp add: consistent_def len_def)
  with f have "p < len rd" by linarith
  with f consistent_getitem [OF assms m]
  show "0 \<le> p \<and> p < len rd \<and> nat p < length (rd_values rd) \<and>
        fst (rd_values rd ! nat p) = k \<and> getitem rd k = Inr (snd (rd_values rd ! nat p))"
    by simp
qed

lemma consistent_invar: assumes "consistent rd" shows "invar rd"
proof -
  have l: "len rd = int (length (rd_values rd))" using assms by (simp add: consistent_def len_def)
  have "dict_ok (rd_keys rd)" using assms by (simp add: consistent_def dict_ok_def)
  moreover have "I2 rd" by (simp add: I2_def l consistent_snd_set [OF assms])
  moreover have "I3 rd" by (simp add: I3_def l consistent_length_keys [OF assms])
  ultimately show ?thesis using consistent_I1 [OF assms] by (simp add: invar_def)
qed

lemma invar_consistent:
  assumes "invar rd" shows "consistent rd"
proof -
  let ?ks = "rd_keys rd" and ?vs = "rd_values rd"
  have d: "distinct (map fst ?ks)" using assms by (simp add: invar_def dict_ok_def)
  have l: "last_index rd = int (length ?vs) - 1" using assms by (simp add: invar_def I3_def len_def)
  have a: "\<And>k p. map_of ?ks k = Some p \<Longrightarrow> 0 \<le> p \<and> nat p < length ?vs \<and> fst (?vs ! nat p) = k"
  proof -
    fix k p assume "map_of ?ks k = Some p"
    then have "(k, p) \<in> set ?ks" by (rule map_of_SomeD)
    with assms show "0 \<le> p \<and> nat p < length ?vs \<and> fst (?vs ! nat p) = k"
      unfolding invar_def I1_def by fastforce
  qed
  have b: "\<And>j. j < length ?vs \<Longrightarrow> map_of ?ks (fst (?vs ! j)) = Some (int j)"
  proof -
    fix j assume "j < length ?vs"
    then have "int j \<in> {0..<len rd}" using l by (simp add: len_def)
    then have "int j \<in> snd ` set ?ks" using assms by (simp add: invar_def I2_def)
    then obtain k where k: "(k, int j) \<in> set ?ks" by force
    then have m: "map_of ?ks k = Some (int j)" using d by simp
    from a [OF m] have "fst (?vs ! j) = k" by simp
    with m show "map_of ?ks (fst (?vs ! j)) = Some (int j)" by simp
  qed
  show ?thesis unfolding consistent_def using d l a b by blast
qed

section \<open>What \<^verbatim>\<open>__setitem__\<close> does on a consistent state\<close>

lemma setitem_absent:
  "map_of (rd_keys rd) k = None \<Longrightarrow>
   setitem rd k v = (Inr (), rd\<lparr>rd_keys := AList.update k (last_index rd + 1) (rd_keys rd),
                                rd_values := rd_values rd @ [(k, v)],
                                last_index := last_index rd + 1\<rparr>)"
  by (simp add: setitem_def Let_def)

lemma setitem_present:
  "consistent rd \<Longrightarrow> map_of (rd_keys rd) k = Some p \<Longrightarrow>
   setitem rd k v = (Inr (), rd\<lparr>rd_values := (rd_values rd)[nat p := (k, v)]\<rparr>)"
proof -
  assume c: "consistent rd" and m: "map_of (rd_keys rd) k = Some p"
  then have "0 \<le> p" "nat p < length (rd_values rd)" unfolding consistent_def by blast+
  then show ?thesis using m by (simp add: setitem_def list_setitem_def norm_index_in)
qed

lemma consistent_setitem_present:
  assumes c: "consistent rd" and m: "map_of (rd_keys rd) k = Some p"
  shows "consistent (rd\<lparr>rd_values := (rd_values rd)[nat p := (k, v)]\<rparr>)"
proof -
  let ?ks = "rd_keys rd" and ?vs = "rd_values rd"
  from c m have p: "0 \<le> p" "nat p < length ?vs" "fst (?vs ! nat p) = k"
    unfolding consistent_def by blast+
  have f: "\<And>j. j < length ?vs \<Longrightarrow> fst (?vs[nat p := (k, v)] ! j) = fst (?vs ! j)"
    using p by (auto simp: nth_list_update)
  show ?thesis using c unfolding consistent_def by (simp add: f)
qed

lemma consistent_setitem_absent:
  assumes c: "consistent rd" and m: "map_of (rd_keys rd) k = None"
  shows "consistent (rd\<lparr>rd_keys := AList.update k (last_index rd + 1) (rd_keys rd),
                         rd_values := rd_values rd @ [(k, v)],
                         last_index := last_index rd + 1\<rparr>)"
proof -
  let ?ks = "rd_keys rd" and ?vs = "rd_values rd"
  have l: "last_index rd + 1 = int (length ?vs)" using c by (simp add: consistent_def)
  have d: "distinct (map fst (AList.update k (int (length ?vs)) ?ks))"
    using c by (simp add: consistent_def distinct_update)
  have a: "\<And>k' p. ((map_of ?ks)(k \<mapsto> int (length ?vs))) k' = Some p \<Longrightarrow>
          0 \<le> p \<and> nat p < Suc (length ?vs) \<and> fst ((?vs @ [(k, v)]) ! nat p) = k'"
  proof -
    fix k' p assume h: "((map_of ?ks)(k \<mapsto> int (length ?vs))) k' = Some p"
    show "0 \<le> p \<and> nat p < Suc (length ?vs) \<and> fst ((?vs @ [(k, v)]) ! nat p) = k'"
    proof (cases "k' = k")
      case True with h show ?thesis by auto
    next
      case False
      with h have "map_of ?ks k' = Some p" by simp
      with c have "0 \<le> p \<and> nat p < length ?vs \<and> fst (?vs ! nat p) = k'"
        unfolding consistent_def by blast
      then show ?thesis by (simp add: nth_append)
    qed
  qed
  have b: "\<And>j. j < Suc (length ?vs) \<Longrightarrow>
          ((map_of ?ks)(k \<mapsto> int (length ?vs))) (fst ((?vs @ [(k, v)]) ! j)) = Some (int j)"
  proof -
    fix j assume j: "j < Suc (length ?vs)"
    show "((map_of ?ks)(k \<mapsto> int (length ?vs))) (fst ((?vs @ [(k, v)]) ! j)) = Some (int j)"
    proof (cases "j = length ?vs")
      case True then show ?thesis by simp
    next
      case False
      with j have jl: "j < length ?vs" by simp
      with c have mj: "map_of ?ks (fst (?vs ! j)) = Some (int j)" unfolding consistent_def by blast
      with m have "fst (?vs ! j) \<noteq> k" by auto
      with mj jl show ?thesis by (simp add: nth_append)
    qed
  qed
  show ?thesis unfolding consistent_def using d a b l by (simp add: update_conv')
qed

section \<open>What \<^verbatim>\<open>__delitem__\<close> does on a consistent state\<close>

lemma consistent_nonempty:
  "consistent rd \<Longrightarrow> map_of (rd_keys rd) k = Some p \<Longrightarrow> rd_values rd \<noteq> []"
  unfolding consistent_def by fastforce

lemma delitem_last:
  assumes c: "consistent rd" and m: "map_of (rd_keys rd) k = Some p" and e: "p = last_index rd"
  shows "delitem rd k = (Inr (), rd\<lparr>rd_keys := AList.delete k (rd_keys rd),
                                    rd_values := butlast (rd_values rd),
                                    last_index := last_index rd - 1\<rparr>)"
  using consistent_nonempty [OF c m] m e
  by (simp add: delitem_def list_pop_def split: prod.split)

lemma delitem_inner:
  assumes c: "consistent rd" and m: "map_of (rd_keys rd) k = Some p" and e: "p \<noteq> last_index rd"
  shows "delitem rd k =
           (Inr (), rd\<lparr>rd_keys := AList.delete k (AList.update (fst (last (rd_values rd))) p (rd_keys rd)),
                       rd_values := (butlast (rd_values rd))[nat p := last (rd_values rd)],
                       last_index := last_index rd - 1\<rparr>)"
proof -
  let ?vs = "rd_values rd"
  from c m have p: "0 \<le> p" "nat p < length ?vs" unfolding consistent_def by blast+
  from c have "last_index rd = int (length ?vs) - 1" by (simp add: consistent_def)
  with p e have "nat p < length (butlast ?vs)" by auto
  with p have n: "norm_index (length (butlast ?vs)) p = Some (nat p)" by (simp add: norm_index_in)
  show ?thesis using consistent_nonempty [OF c m] m e n
    by (simp add: delitem_def list_pop_def list_setitem_def split: prod.split)
qed

lemma consistent_delitem_last:
  assumes c: "consistent rd" and m: "map_of (rd_keys rd) k = Some p" and e: "p = last_index rd"
  shows "consistent (rd\<lparr>rd_keys := AList.delete k (rd_keys rd),
                         rd_values := butlast (rd_values rd),
                         last_index := last_index rd - 1\<rparr>)"
proof -
  let ?ks = "rd_keys rd" and ?vs = "rd_values rd"
  have ne: "?vs \<noteq> []" by (rule consistent_nonempty [OF c m])
  have l: "last_index rd = int (length ?vs) - 1" using c by (simp add: consistent_def)
  have pk: "nat p = length ?vs - 1" "0 \<le> p" using e l ne by auto
  have kk: "fst (?vs ! (length ?vs - 1)) = k" using c m pk unfolding consistent_def by metis
  have d: "distinct (map fst (AList.delete k ?ks))"
    using c by (simp add: consistent_def distinct_delete)
  have a: "\<And>k' q. ((map_of ?ks)(k := None)) k' = Some q \<Longrightarrow>
          0 \<le> q \<and> nat q < length ?vs - 1 \<and> fst (butlast ?vs ! nat q) = k'"
  proof -
    fix k' q assume h: "((map_of ?ks)(k := None)) k' = Some q"
    then have kne: "k' \<noteq> k" and mq: "map_of ?ks k' = Some q" by (auto split: if_splits)
    with c have q: "0 \<le> q" "nat q < length ?vs" "fst (?vs ! nat q) = k'"
      unfolding consistent_def by blast+
    with kk kne have "nat q \<noteq> length ?vs - 1" by auto
    with q have "nat q < length ?vs - 1" by simp
    with q show "0 \<le> q \<and> nat q < length ?vs - 1 \<and> fst (butlast ?vs ! nat q) = k'"
      by (simp add: nth_butlast)
  qed
  have b: "\<And>j. j < length ?vs - 1 \<Longrightarrow>
          ((map_of ?ks)(k := None)) (fst (butlast ?vs ! j)) = Some (int j)"
  proof -
    fix j assume j: "j < length ?vs - 1"
    then have jl: "j < length ?vs" by simp
    with c have mj: "map_of ?ks (fst (?vs ! j)) = Some (int j)" unfolding consistent_def by blast
    have "fst (?vs ! j) \<noteq> k"
    proof
      assume "fst (?vs ! j) = k"
      with mj m have "int j = p" by simp
      with pk j show False by simp
    qed
    with mj j show "((map_of ?ks)(k := None)) (fst (butlast ?vs ! j)) = Some (int j)"
      by (simp add: nth_butlast)
  qed
  have l': "last_index rd - 1 = int (length ?vs - 1) - 1" using l ne by (cases "rd_values rd") auto
  show ?thesis unfolding consistent_def using d a b l' by (simp add: delete_conv')
qed


lemma consistent_delitem_inner:
  assumes c: "consistent rd" and m: "map_of (rd_keys rd) k = Some p" and e: "p \<noteq> last_index rd"
  shows "consistent (rd\<lparr>rd_keys := AList.delete k (AList.update (fst (last (rd_values rd))) p (rd_keys rd)),
                         rd_values := (butlast (rd_values rd))[nat p := last (rd_values rd)],
                         last_index := last_index rd - 1\<rparr>)"
proof -
  let ?ks = "rd_keys rd" and ?vs = "rd_values rd"
  let ?n = "length ?vs - 1"
  let ?mk = "fst (last ?vs)"
  let ?vs' = "(butlast ?vs)[nat p := last ?vs]"
  let ?m' = "((map_of ?ks)(?mk \<mapsto> p))(k := None)"
  have ne: "?vs \<noteq> []" by (rule consistent_nonempty [OF c m])
  have l: "last_index rd = int (length ?vs) - 1" using c by (simp add: consistent_def)
  from c m have p: "0 \<le> p" "nat p < length ?vs" "fst (?vs ! nat p) = k"
    unfolding consistent_def by blast+
  have pn: "nat p < ?n" using p e l by auto
  have lastn: "last ?vs = ?vs ! ?n" using ne by (simp add: last_conv_nth)
  have mmk: "map_of ?ks ?mk = Some (int ?n)"
    using c ne unfolding consistent_def lastn by simp
  have mkk: "?mk \<noteq> k" using mmk m pn by auto
  have d: "distinct (map fst (AList.delete k (AList.update ?mk p ?ks)))"
    using c by (simp add: consistent_def distinct_delete distinct_update)
  have a: "\<And>k' q. ?m' k' = Some q \<Longrightarrow> 0 \<le> q \<and> nat q < ?n \<and> fst (?vs' ! nat q) = k'"
  proof -
    fix k' q assume h: "?m' k' = Some q"
    then have kne: "k' \<noteq> k" by (auto split: if_splits)
    show "0 \<le> q \<and> nat q < ?n \<and> fst (?vs' ! nat q) = k'"
    proof (cases "k' = ?mk")
      case True
      with h kne have "q = p" by simp
      with p pn True show ?thesis by simp
    next
      case False
      with h kne have mq: "map_of ?ks k' = Some q" by simp
      with c have q: "0 \<le> q" "nat q < length ?vs" "fst (?vs ! nat q) = k'"
        unfolding consistent_def by blast+
      have "nat q \<noteq> ?n" using q False lastn by auto
      with q have qn: "nat q < ?n" by simp
      have "nat q \<noteq> nat p" using q p kne by auto
      with q qn show ?thesis by (simp add: nth_butlast)
    qed
  qed
  have b: "\<And>j. j < ?n \<Longrightarrow> ?m' (fst (?vs' ! j)) = Some (int j)"
  proof -
    fix j assume j: "j < ?n"
    show "?m' (fst (?vs' ! j)) = Some (int j)"
    proof (cases "j = nat p")
      case True
      with j p mkk show ?thesis by simp
    next
      case False
      with j have v: "?vs' ! j = ?vs ! j" by (simp add: nth_butlast)
      from j c have mj: "map_of ?ks (fst (?vs ! j)) = Some (int j)"
        unfolding consistent_def by simp
      have n1: "fst (?vs ! j) \<noteq> k" using mj m False by auto
      have n2: "fst (?vs ! j) \<noteq> ?mk" using mj mmk j by auto
      show ?thesis using v mj n1 n2 by simp
    qed
  qed
  have l': "last_index rd - 1 = int ?n - 1" using l ne by (cases "rd_values rd") auto
  show ?thesis unfolding consistent_def using d a b l' by (simp add: delete_conv' update_conv')
qed

section \<open>Lookups and length after an insertion or a deletion\<close>

lemma getitem_consistent:
  "consistent rd \<Longrightarrow>
   getitem rd k = (case map_of (rd_keys rd) k of
                     None \<Rightarrow> Inl (KeyError (ArgKey k))
                   | Some p \<Rightarrow> Inr (snd (rd_values rd ! nat p)))"
proof (cases "map_of (rd_keys rd) k")
  case None
  then show ?thesis by (simp add: getitem_def)
next
  case (Some p)
  assume "consistent rd"
  from consistent_getitem [OF this Some] Some show ?thesis by simp
qed

lemma consistent_len: "consistent rd \<Longrightarrow> len rd = int (length (rd_values rd))"
  by (simp add: consistent_def len_def)

lemma setitem_ok:
  assumes c: "consistent rd"
  shows "\<exists>rd'. setitem rd k v = (Inr (), rd') \<and> consistent rd'"
proof (cases "map_of (rd_keys rd) k")
  case None
  then show ?thesis using setitem_absent [OF None] consistent_setitem_absent [OF c None] by simp
next
  case (Some p)
  then show ?thesis using setitem_present [OF c Some] consistent_setitem_present [OF c Some] by simp
qed

lemma setitem_getitem_same:
  assumes c: "consistent rd"
  shows "getitem (snd (setitem rd k v)) k = Inr v"
proof (cases "map_of (rd_keys rd) k")
  case None
  have l: "nat (last_index rd + 1) = length (rd_values rd)" using c by (simp add: consistent_def)
  have "getitem (rd\<lparr>rd_keys := AList.update k (last_index rd + 1) (rd_keys rd),
                         rd_values := rd_values rd @ [(k, v)],
                         last_index := last_index rd + 1\<rparr>) k = Inr v"
    by (simp add: getitem_consistent [OF consistent_setitem_absent [OF c None]] update_conv' l)
  then show ?thesis by (simp add: setitem_absent [OF None])
next
  case (Some p)
  with c have "nat p < length (rd_values rd)" unfolding consistent_def by blast
  then show ?thesis
    by (simp add: setitem_present [OF c Some] getitem_consistent [OF consistent_setitem_present [OF c Some]] Some)
qed

lemma setitem_getitem_other:
  assumes c: "consistent rd" and ne: "k' \<noteq> k"
  shows "getitem (snd (setitem rd k v)) k' = getitem rd k'"
proof (cases "map_of (rd_keys rd) k")
  case None
  show ?thesis
  proof (cases "map_of (rd_keys rd) k'")
    case N: None
    then show ?thesis using ne
      by (simp add: setitem_absent [OF None] getitem_consistent [OF consistent_setitem_absent [OF c None]]
        getitem_consistent [OF c] update_conv')
  next
    case (Some q)
    with c have "nat q < length (rd_values rd)" unfolding consistent_def by blast
    then show ?thesis using ne Some
      by (simp add: setitem_absent [OF None] getitem_consistent [OF consistent_setitem_absent [OF c None]]
        getitem_consistent [OF c] update_conv' nth_append)
  qed
next
  case (Some p)
  with c have p: "fst (rd_values rd ! nat p) = k" unfolding consistent_def by blast
  show ?thesis
  proof (cases "map_of (rd_keys rd) k'")
    case None
    then show ?thesis
      by (simp add: setitem_present [OF c Some] getitem_consistent [OF consistent_setitem_present [OF c Some]]
        getitem_consistent [OF c])
  next
    case S: (Some q)
    with c have "fst (rd_values rd ! nat q) = k'" unfolding consistent_def by blast
    with p ne have "nat p \<noteq> nat q" by auto
    then show ?thesis using S
      by (simp add: setitem_present [OF c Some] getitem_consistent [OF consistent_setitem_present [OF c Some]]
        getitem_consistent [OF c])
  qed
qed

lemma setitem_len:
  assumes c: "consistent rd"
  shows "len (snd (setitem rd k v)) = (if present rd k then len rd else len rd + 1)"
proof (cases "map_of (rd_keys rd) k")
  case None
  then show ?thesis by (simp add: setitem_absent [OF None] present_def len_def)
next
  case (Some p)
  then show ?thesis by (simp add: setitem_present [OF c Some] present_def len_def)
qed

lemma setitem_present_iff:
  assumes c: "consistent rd"
  shows "present (snd (setitem rd k v)) k' \<longleftrightarrow> k' = k \<or> present rd k'"
proof (cases "map_of (rd_keys rd) k")
  case None
  then show ?thesis by (simp add: setitem_absent [OF None] present_def update_conv')
next
  case (Some p)
  then show ?thesis by (auto simp: setitem_present [OF c Some] present_def)
qed

lemma delitem_ok:
  assumes c: "consistent rd" and pr: "present rd k"
  shows "\<exists>rd'. delitem rd k = (Inr (), rd') \<and> consistent rd'"
proof -
  from pr obtain p where m: "map_of (rd_keys rd) k = Some p" by (auto simp: present_def)
  show ?thesis
  proof (cases "p = last_index rd")
    case True
    show ?thesis
      using delitem_last [OF c m True] consistent_delitem_last [OF c m True] by simp
  next
    case False
    show ?thesis
      using delitem_inner [OF c m False] consistent_delitem_inner [OF c m False] by simp
  qed
qed

lemma delitem_len:
  assumes c: "consistent rd" and pr: "present rd k"
  shows "len (snd (delitem rd k)) = len rd - 1"
proof -
  from pr obtain p where m: "map_of (rd_keys rd) k = Some p" by (auto simp: present_def)
  show ?thesis
  proof (cases "p = last_index rd")
    case True
    show ?thesis by (simp add: delitem_last [OF c m True] len_def)
  next
    case False
    show ?thesis by (simp add: delitem_inner [OF c m False] len_def)
  qed
qed

lemma delitem_removes:
  assumes c: "consistent rd" and pr: "present rd k"
  shows "\<not> present (snd (delitem rd k)) k"
proof -
  from pr obtain p where m: "map_of (rd_keys rd) k = Some p" by (auto simp: present_def)
  show ?thesis
  proof (cases "p = last_index rd")
    case True
    show ?thesis by (simp add: delitem_last [OF c m True] present_def delete_conv')
  next
    case False
    show ?thesis by (simp add: delitem_inner [OF c m False] present_def delete_conv')
  qed
qed

lemma moved_key:
  assumes c: "consistent rd" and ne: "rd_values rd \<noteq> []"
  shows "map_of (rd_keys rd) (fst (last (rd_values rd))) = Some (last_index rd)"
    and "nat (last_index rd) = length (rd_values rd) - 1"
    and "0 \<le> last_index rd"
proof -
  let ?vs = "rd_values rd"
  have l: "last_index rd = int (length ?vs) - 1" using c by (simp add: consistent_def)
  have n1: "int (length ?vs - 1) = int (length ?vs) - 1" using ne by (cases ?vs) auto
  have "length ?vs - 1 < length ?vs" using ne by (cases ?vs) auto
  with c have "map_of (rd_keys rd) (fst (?vs ! (length ?vs - 1))) = Some (int (length ?vs - 1))"
    unfolding consistent_def by blast
  then show "map_of (rd_keys rd) (fst (last ?vs)) = Some (last_index rd)"
    by (simp only: last_conv_nth [OF ne] l n1)
  show "nat (last_index rd) = length ?vs - 1" using l by simp
  show "0 \<le> last_index rd" using l n1 by linarith
qed

lemma delitem_lookup_other:
  assumes c: "consistent rd" and pr: "present rd k" and ne: "k' \<noteq> k"
  shows "map_of (rd_keys (snd (delitem rd k))) k' =
           (if map_of (rd_keys rd) k' = Some (last_index rd)
            then map_of (rd_keys rd) k else map_of (rd_keys rd) k')"
proof -
  from pr obtain p where m: "map_of (rd_keys rd) k = Some p" by (auto simp: present_def)
  let ?vs = "rd_values rd"
  have nev: "?vs \<noteq> []" by (rule consistent_nonempty [OF c m])
  note mk = moved_key [OF c nev]
  show ?thesis
  proof (cases "p = last_index rd")
    case True
    have "map_of (rd_keys rd) k' \<noteq> Some (last_index rd)"
    proof
      assume h: "map_of (rd_keys rd) k' = Some (last_index rd)"
      from c h have "fst (?vs ! nat (last_index rd)) = k'" unfolding consistent_def by blast
      moreover from c m True have "fst (?vs ! nat (last_index rd)) = k" unfolding consistent_def by blast
      ultimately show False using ne by simp
    qed
    then show ?thesis using ne by (simp add: delitem_last [OF c m True] delete_conv')
  next
    case False
    show ?thesis
    proof (cases "k' = fst (last ?vs)")
      case T: True
      then show ?thesis using ne mk(1) m
        by (simp add: delitem_inner [OF c m False] delete_conv' update_conv')
    next
      case F: False
      have "map_of (rd_keys rd) k' \<noteq> Some (last_index rd)"
      proof
        assume h: "map_of (rd_keys rd) k' = Some (last_index rd)"
        from c h have "fst (?vs ! nat (last_index rd)) = k'" unfolding consistent_def by blast
        then have "k' = fst (last ?vs)" by (simp add: last_conv_nth [OF nev] mk(2))
        with F show False by simp
      qed
      then show ?thesis using ne F
        by (simp add: delitem_inner [OF c m False] delete_conv' update_conv')
    qed
  qed
qed

lemma delitem_present_other:
  assumes c: "consistent rd" and pr: "present rd k" and ne: "k' \<noteq> k"
  shows "present (snd (delitem rd k)) k' = present rd k'"
  using pr by (auto simp: present_def delitem_lookup_other [OF c pr ne])

lemma delitem_getitem_other:
  assumes c: "consistent rd" and pr: "present rd k" and ne: "k' \<noteq> k"
  shows "getitem (snd (delitem rd k)) k' = getitem rd k'"
proof -
  from pr obtain p where m: "map_of (rd_keys rd) k = Some p" by (auto simp: present_def)
  let ?vs = "rd_values rd"
  let ?rd' = "snd (delitem rd k)"
  have nev: "?vs \<noteq> []" by (rule consistent_nonempty [OF c m])
  note mk = moved_key [OF c nev]
  from delitem_ok [OF c pr] have c': "consistent ?rd'" by auto
  from c m have p: "0 \<le> p" "nat p < length ?vs" "fst (?vs ! nat p) = k"
    unfolding consistent_def by blast+
  show ?thesis
  proof (cases "map_of (rd_keys rd) k'")
    case None
    then show ?thesis
      by (simp add: getitem_consistent [OF c] getitem_consistent [OF c'] delitem_lookup_other [OF c pr ne])
  next
    case (Some q)
    with c have q: "0 \<le> q" "nat q < length ?vs" "fst (?vs ! nat q) = k'"
      unfolding consistent_def by blast+
    have qp: "nat q \<noteq> nat p" using q p ne by auto
    show ?thesis
    proof (cases "p = last_index rd")
      case True
      have "nat q \<noteq> length ?vs - 1" using qp True mk(2) by simp
      with q have "nat q < length ?vs - 1" by simp
      then have v: "rd_values ?rd' ! nat q = ?vs ! nat q"
        by (simp add: delitem_last [OF c m True] nth_butlast)
      have "q \<noteq> last_index rd" using qp True by auto
      then show ?thesis using Some v
        by (simp add: getitem_consistent [OF c] getitem_consistent [OF c'] delitem_lookup_other [OF c pr ne])
    next
      case False
      have pn: "nat p < length ?vs - 1" using p False mk(2,3) by auto
      show ?thesis
      proof (cases "q = last_index rd")
        case T: True
        have v: "rd_values ?rd' ! nat p = last ?vs"
          using pn by (simp add: delitem_inner [OF c m False])
        have "last ?vs = ?vs ! nat q" using T mk(2) by (simp add: last_conv_nth [OF nev])
        with v show ?thesis using Some T m
          by (simp add: getitem_consistent [OF c] getitem_consistent [OF c'] delitem_lookup_other [OF c pr ne])
      next
        case F: False
        have "nat q \<noteq> length ?vs - 1" using F q(1) mk(2,3) by auto
        with q have "nat q < length ?vs - 1" by simp
        then have v: "rd_values ?rd' ! nat q = ?vs ! nat q"
          using qp by (simp add: delitem_inner [OF c m False] nth_butlast)
        show ?thesis using Some F v
          by (simp add: getitem_consistent [OF c] getitem_consistent [OF c'] delitem_lookup_other [OF c pr ne])
      qed
    qed
  qed
qed

section \<open>The sample state\<close>

lemma invar_iff: "invar rd \<longleftrightarrow> consistent rd"
  using invar_consistent consistent_invar by blast

lemma upto3: "{0..<3::int} = {0,1,2}" by auto

lemma invar_abc: "invar abc"
  by (simp add: abc_def invar_def dict_ok_def I1_def I2_def I3_def len_def getitem_def
      list_getitem_def norm_index_def upto3)

lemma abc_built: "setitems empty_rd [(''a'', 1), (''b'', 2), (''c'', 3)] = (Inr (), abc)"
  by (simp add: abc_def empty_rd_def setitem_def)

lemma cba_built: "setitems empty_rd [(''c'', 3), (''b'', 2), (''a'', 1)] = (Inr (), cba)"
  by (simp add: cba_def empty_rd_def setitem_def)

lemma delitem_abc: "delitem abc ''a'' = (Inr (), \<lparr>rd_keys = [(''b'', 1), (''c'', 0)],
          rd_values = [(''c'', 3), (''b'', 2)], last_index = 1\<rparr>)"
  by (simp add: abc_def delitem_def list_pop_def list_setitem_def norm_index_def)

section \<open>Random draws on a consistent state\<close>

lemma randint_range_len: "randint_range 0 (last_index rd) = {0..<len rd}"
  by (auto simp: randint_range_def len_def)

lemma random_key_slot:
  assumes c: "consistent rd" and i: "i \<in> randint_range 0 (last_index rd)"
  shows "random_key rd i = Inr (fst (rd_values rd ! nat i))"
    and "map_of (rd_keys rd) (fst (rd_values rd ! nat i)) = Some i"
proof -
  from i have r: "0 \<le> i" "i < len rd" by (simp_all add: randint_range_len)
  then have n: "nat i < length (rd_values rd)"
    by (simp add: consistent_len [OF c] nat_less_iff)
  from r have "len rd \<noteq> 0" by linarith
  with n r show "random_key rd i = Inr (fst (rd_values rd ! nat i))"
    by (simp add: random_key_def list_getitem_def norm_index_in)
  from c n have "map_of (rd_keys rd) (fst (rd_values rd ! nat i)) = Some (int (nat i))"
    unfolding consistent_def by blast
  with r show "map_of (rd_keys rd) (fst (rd_values rd ! nat i)) = Some i" by simp
qed

lemma random_key_reaches:
  assumes c: "consistent rd" and pr: "present rd k"
  shows "\<exists>!j. j \<in> randint_range 0 (last_index rd) \<and> random_key rd j = Inr k"
proof -
  from pr obtain p where m: "map_of (rd_keys rd) k = Some p" by (auto simp: present_def)
  with c have p: "0 \<le> p" "nat p < length (rd_values rd)" "fst (rd_values rd ! nat p) = k"
    unfolding consistent_def by blast+
  then have pin: "p \<in> randint_range 0 (last_index rd)"
    by (simp add: randint_range_len consistent_len [OF c] nat_less_iff)
  show ?thesis
  proof (rule ex1I [of _ p])
    show "p \<in> randint_range 0 (last_index rd) \<and> random_key rd p = Inr k"
      using pin random_key_slot(1) [OF c pin] p by simp
  next
    fix j assume j: "j \<in> randint_range 0 (last_index rd) \<and> random_key rd j = Inr k"
    then have "fst (rd_values rd ! nat j) = k" using random_key_slot(1) [OF c, of j] by simp
    with random_key_slot(2) [OF c, of j] j m show "j = p" by simp
  qed
qed

lemma len_abc: "len abc = 3" by (simp add: abc_def len_def)

lemma len_empty_rd: "len (empty_rd :: (string, int) RandomDict) = 0"
  by (simp add: empty_rd_def len_def)

lemma empty_no_keys:
  assumes c: "consistent rd" and l: "len rd = 0"
  shows "rd_keys rd = []"
proof -
  have "length (rd_values rd) = 0" using consistent_len [OF c] l by simp
  then show ?thesis using consistent_length_keys [OF c] by simp
qed

section \<open>Construction on the empty state\<close>

lemma present_set: "{k. present rd k} = set (map fst (rd_keys rd))"
  by (auto simp: present_def map_of_eq_None_iff)

lemma consistent_len_card:
  assumes c: "consistent rd"
  shows "len rd = int (card {k. present rd k})"
proof -
  have "distinct (map fst (rd_keys rd))" using c by (simp add: consistent_def)
  then have "card (set (map fst (rd_keys rd))) = length (rd_keys rd)"
    using distinct_card by fastforce
  then show ?thesis
    by (simp only: present_set consistent_len [OF c] consistent_length_keys [OF c])
qed

lemma consistent_empty_rd: "consistent empty_rd"
  by (simp add: consistent_def empty_rd_def)

lemma getitem_empty_rd: "getitem empty_rd k = Inl (KeyError (ArgKey k))"
  by (simp add: getitem_def empty_rd_def)

lemma present_empty_rd: "\<not> present empty_rd k"
  by (simp add: present_def empty_rd_def)

lemma setitems_ok:
  "consistent rd \<Longrightarrow>
   \<exists>rd'. setitems rd kvs = (Inr (), rd') \<and> consistent rd' \<and>
     (\<forall>k. getitem rd' k = (case map_of (rev kvs) k of Some v \<Rightarrow> Inr v | None \<Rightarrow> getitem rd k)) \<and>
     (\<forall>k. present rd' k \<longleftrightarrow> k \<in> fst ` set kvs \<or> present rd k)"
proof (induction kvs arbitrary: rd)
  case Nil
  then show ?case by simp
next
  case (Cons kv rest)
  obtain k v where kv: "kv = (k, v)" by (cases kv)
  from setitem_ok [OF Cons.prems, of k v] obtain rd1
    where s: "setitem rd k v = (Inr (), rd1)" and c1: "consistent rd1" by blast
  have g1: "\<And>k'. getitem rd1 k' = (if k' = k then Inr v else getitem rd k')"
    using setitem_getitem_same [OF Cons.prems, of k v]
      setitem_getitem_other [OF Cons.prems, of _ k v] s by simp
  have p1: "\<And>k'. present rd1 k' \<longleftrightarrow> k' = k \<or> present rd k'"
    using setitem_present_iff [OF Cons.prems, of k v] s by simp
  from Cons.IH [OF c1] obtain rd' where
    r: "setitems rd1 rest = (Inr (), rd')" and c': "consistent rd'"
    and g: "\<And>k'. getitem rd' k' = (case map_of (rev rest) k' of Some v \<Rightarrow> Inr v | None \<Rightarrow> getitem rd1 k')"
    and p: "\<And>k'. present rd' k' \<longleftrightarrow> k' \<in> fst ` set rest \<or> present rd1 k'"
    by blast
  have "setitems rd (kv # rest) = (Inr (), rd')" using s r kv by simp
  moreover have "\<forall>k'. getitem rd' k' =
      (case map_of (rev (kv # rest)) k' of Some v \<Rightarrow> Inr v | None \<Rightarrow> getitem rd k')"
    by (simp add: g g1 kv map_add_def split: option.split)
  moreover have "\<forall>k'. present rd' k' \<longleftrightarrow> k' \<in> fst ` set (kv # rest) \<or> present rd k'"
    using p p1 kv by auto
  ultimately show ?case using c' by blast
qed

lemma fromkeys_loop_setitems:
  "fromkeys_loop rd ks v = setitems rd (map (\<lambda>k. (k, v)) ks)"
  by (induction ks arbitrary: rd) (simp_all split: prod.split sum.split)

lemma init_empty: "init [] [] = Inr empty_rd"
  by (simp add: init_def update_def)

lemma setitems_append:
  "setitems rd (xs @ ys) =
     (case setitems rd xs of (Inl e, rd') \<Rightarrow> (Inl e, rd') | (Inr u, rd') \<Rightarrow> setitems rd' ys)"
  by (induction xs arbitrary: rd) (auto split: prod.split sum.split)

lemma fromkeys_result:
  "\<exists>rd. fromkeys (ks :: 'k list) (v :: 'v) = Inr rd \<and> invar rd \<and>
     (\<forall>k \<in> set ks. present rd k \<and> getitem rd k = Inr v) \<and>
     (\<forall>k. present rd k \<longrightarrow> k \<in> set ks) \<and>
     len rd = int (card (set ks))"
proof -
  let ?e = "empty_rd :: ('k, 'v) RandomDict"
  let ?kvs = "map (\<lambda>k. (k, v)) ks"
  have "\<exists>rd'. setitems ?e ?kvs = (Inr (), rd') \<and> consistent rd' \<and>
     (\<forall>k. getitem rd' k = (case map_of (rev ?kvs) k of Some v \<Rightarrow> Inr v | None \<Rightarrow> getitem ?e k)) \<and>
     (\<forall>k. present rd' k \<longleftrightarrow> k \<in> fst ` set ?kvs \<or> present ?e k)"
    by (rule setitems_ok [OF consistent_empty_rd])
  then obtain rd where h: "setitems ?e ?kvs = (Inr (), rd) \<and> consistent rd \<and>
     (\<forall>k. getitem rd k = (case map_of (rev ?kvs) k of Some v \<Rightarrow> Inr v | None \<Rightarrow> getitem ?e k)) \<and>
     (\<forall>k. present rd k \<longleftrightarrow> k \<in> fst ` set ?kvs \<or> present ?e k)" ..
  then have r: "setitems ?e ?kvs = (Inr (), rd)" and c: "consistent rd" by simp_all
  from h have g: "\<And>k. getitem rd k = (case map_of (rev ?kvs) k of Some v \<Rightarrow> Inr v | None \<Rightarrow> getitem ?e k)"
    by (elim conjE) (rule spec)
  from h have p: "\<And>k. present rd k \<longleftrightarrow> k \<in> fst ` set ?kvs \<or> present ?e k"
    by (elim conjE) (rule spec)
  have f: "fromkeys ks v = Inr rd"
    by (simp add: fromkeys_def init_empty fromkeys_loop_setitems r)
  have ps: "\<And>k. present rd k \<longleftrightarrow> k \<in> set ks"
    using p by (simp add: present_empty_rd image_image)
  have m: "\<And>k. k \<in> set ks \<Longrightarrow> map_of (rev ?kvs) k = Some v"
    by (simp add: rev_map map_of_map_restrict)
  have "len rd = int (card (set ks))"
    using consistent_len_card [OF c] ps by simp
  then show ?thesis using f consistent_invar [OF c] ps g m by simp
qed

lemma init_cases:
  "(length (args :: ('k \<times> 'v) list list) \<le> 1 \<longrightarrow>
      (\<exists>rd. init args kwargs = Inr rd \<and> invar rd \<and>
         (\<forall>k. getitem rd k = (case map_of (rev (concat args @ kwargs)) k of
                                Some v \<Rightarrow> Inr v | None \<Rightarrow> Inl (KeyError (ArgKey k)))) \<and>
         (\<forall>k. present rd k \<longleftrightarrow> k \<in> fst ` set (concat args @ kwargs)))) \<and>
   (2 \<le> length args \<longrightarrow> init args kwargs = Inl TypeError)"
proof (intro conjI impI)
  assume "2 \<le> length args"
  then obtain a b rest where "args = a # b # rest"
    by (cases args; cases "tl args") auto
  then show "init args kwargs = Inl TypeError" by (simp add: init_def update_def)
next
  assume l: "length args \<le> 1"
  let ?all = "concat args @ kwargs"
  let ?e = "empty_rd :: ('k, 'v) RandomDict"
  have "\<exists>rd'. setitems ?e ?all = (Inr (), rd') \<and> consistent rd' \<and>
     (\<forall>k. getitem rd' k = (case map_of (rev ?all) k of Some v \<Rightarrow> Inr v | None \<Rightarrow> getitem ?e k)) \<and>
     (\<forall>k. present rd' k \<longleftrightarrow> k \<in> fst ` set ?all \<or> present ?e k)"
    by (rule setitems_ok [OF consistent_empty_rd])
  then obtain rd where h: "setitems ?e ?all = (Inr (), rd) \<and> consistent rd \<and>
     (\<forall>k. getitem rd k = (case map_of (rev ?all) k of Some v \<Rightarrow> Inr v | None \<Rightarrow> getitem ?e k)) \<and>
     (\<forall>k. present rd k \<longleftrightarrow> k \<in> fst ` set ?all \<or> present ?e k)" ..
  then have r: "setitems ?e ?all = (Inr (), rd)" and c: "consistent rd" by simp_all
  from h have g: "\<And>k. getitem rd k = (case map_of (rev ?all) k of Some v \<Rightarrow> Inr v | None \<Rightarrow> getitem ?e k)"
    by (elim conjE) (rule spec)
  from h have p: "\<And>k. present rd k \<longleftrightarrow> k \<in> fst ` set ?all \<or> present ?e k"
    by (elim conjE) (rule spec)
  have u: "update ?e args kwargs = setitems ?e ?all"
  proof (cases args)
    case Nil
    then show ?thesis by (simp add: update_def)
  next
    case (Cons a rest)
    with l have "rest = []" by simp
    with Cons show ?thesis by (simp add: update_def setitems_append)
  qed
  have "init args kwargs = Inr rd" by (simp add: init_def u r)
  then show "\<exists>rd. init args kwargs = Inr rd \<and> invar rd \<and>
         (\<forall>k. getitem rd k = (case map_of (rev (concat args @ kwargs)) k of
                                Some v \<Rightarrow> Inr v | None \<Rightarrow> Inl (KeyError (ArgKey k)))) \<and>
         (\<forall>k. present rd k \<longleftrightarrow> k \<in> fst ` set (concat args @ kwargs))"
    using consistent_invar [OF c] g [unfolded getitem_empty_rd] p
    by (simp add: present_empty_rd)
qed

lemma init_invar: "init args kwargs = Inr rd \<Longrightarrow> invar rd"
  using init_cases [of args kwargs] by (cases "length args \<le> 1") auto

lemma fromkeys_invar: "fromkeys ks v = Inr rd \<Longrightarrow> invar rd"
  using fromkeys_result [of ks v] by auto

section \<open>The store and \<^verbatim>\<open>copy\<close>\<close>

lemma load_store_same: "valid h a \<Longrightarrow> load (store h a rd) a = rd"
  by (simp add: valid_def load_def store_def)

lemma valid_store: "valid h b \<Longrightarrow> valid (store h a rd) b"
  by (cases "a = b") (simp_all add: valid_def store_def)

lemma load_store_other:
  "a \<noteq> b \<Longrightarrow> keys_ref (inst_objs h ! a) \<noteq> keys_ref (inst_objs h ! b) \<Longrightarrow>
   values_ref (inst_objs h ! a) \<noteq> values_ref (inst_objs h ! b) \<Longrightarrow>
   load (store h a rd) b = load h b"
  by (simp add: load_def store_def)

lemma copy_result:
  assumes v: "valid h c1"
  shows "\<exists>c2 h1. copy h c1 = Inr (c2, h1) \<and> valid h1 c1 \<and> valid h1 c2 \<and>
           separate h1 c1 c2 \<and> load h1 c1 = load h c1 \<and> load h1 c2 = load h c1"
  using v
  by (simp add: copy_def init_empty new_instance_def Let_def valid_def separate_def load_def
      nth_append empty_rd_def)

section \<open>Equality compares the bindings\<close>

lemma items_loop_present:
  "(\<forall>k \<in> set ks. \<exists>v. getitem rd k = Inr v) \<Longrightarrow>
   items_loop rd ks = Inr (map (\<lambda>k. (k, projr (getitem rd k))) ks)"
  by (induction ks) auto

lemma getitem_present:
  "consistent rd \<Longrightarrow> present rd k \<Longrightarrow> \<exists>v. getitem rd k = Inr v"
  by (auto simp: getitem_consistent present_def)

lemma getitem_absent:
  "\<not> present rd k \<Longrightarrow> getitem rd k = Inl (KeyError (ArgKey k))"
  by (simp add: getitem_def present_def)

lemma present_iff_getitem:
  "consistent rd \<Longrightarrow> present rd k \<longleftrightarrow> (\<exists>v. getitem rd k = Inr v)"
  by (cases "map_of (rd_keys rd) k") (simp_all add: getitem_consistent present_def)

lemma items_consistent:
  assumes c: "consistent rd"
  shows "items rd = Inr (map (\<lambda>k. (k, projr (getitem rd k))) (iter rd))"
proof -
  have "\<forall>k \<in> set (iter rd). \<exists>v. getitem rd k = Inr v"
  proof
    fix k assume "k \<in> set (iter rd)"
    then have "k \<in> {k. present rd k}" by (simp add: present_set iter_def)
    then show "\<exists>v. getitem rd k = Inr v" using getitem_present [OF c] by simp
  qed
  then show ?thesis unfolding items_def by (rule items_loop_present)
qed

lemma map_of_dict_of: "map_of (dict_of d xs) = map_of d ++ map_of (rev xs)"
proof (induction xs arbitrary: d)
  case Nil
  then show ?case by simp
next
  case (Cons x xs)
  obtain k v where x: "x = (k, v)" by (cases x)
  show ?case
    by (simp add: x Cons.IH update_conv' map_add_upd_left fun_eq_iff map_add_def split: option.split)
qed

lemma distinct_dict_of: "distinct (map fst d) \<Longrightarrow> distinct (map fst (dict_of d xs))"
proof (induction xs arbitrary: d)
  case Nil
  then show ?case by simp
next
  case (Cons x xs)
  obtain k v where x: "x = (k, v)" by (cases x)
  show ?case using Cons by (simp add: x distinct_update)
qed

lemma dict_eq_iff:
  assumes da: "distinct (map fst a)" and db: "distinct (map fst b)"
  shows "dict_eq a b \<longleftrightarrow> map_of a = map_of b"
proof
  assume e: "map_of a = map_of b"
  have "length a = card (dom (map_of a))" using da
    by (simp add: dom_map_of_conv_image_fst distinct_card [symmetric] del: set_map)
       (metis distinct_card length_map set_map)
  moreover have "length b = card (dom (map_of b))" using db
    by (simp add: dom_map_of_conv_image_fst del: set_map)
       (metis distinct_card length_map set_map)
  ultimately have "length a = length b" using e by simp
  moreover have "list_all (\<lambda>(k, v). map_of b k = Some v) a"
    unfolding list_all_iff
  proof (clarify)
    fix k v assume "(k, v) \<in> set a"
    with da have "map_of a k = Some v" by simp
    with e show "map_of b k = Some v" by simp
  qed
  ultimately show "dict_eq a b" by (simp add: dict_eq_def)
next
  assume d: "dict_eq a b"
  then have l: "length a = length b" and s: "\<And>k v. (k, v) \<in> set a \<Longrightarrow> map_of b k = Some v"
    by (auto simp: dict_eq_def list_all_iff)
  have sub: "fst ` set a \<subseteq> fst ` set b"
  proof
    fix k assume "k \<in> fst ` set a"
    then obtain v where "(k, v) \<in> set a" by auto
    from s [OF this] have "(k, v) \<in> set b" by (rule map_of_SomeD)
    then show "k \<in> fst ` set b" by force
  qed
  have "card (fst ` set a) = length a" using da by (metis distinct_card length_map set_map)
  moreover have "card (fst ` set b) = length b" using db by (metis distinct_card length_map set_map)
  ultimately have "card (fst ` set a) = card (fst ` set b)" using l by simp
  with sub have eqd: "fst ` set a = fst ` set b" by (simp add: card_subset_eq)
  show "map_of a = map_of b"
  proof
    fix k
    show "map_of a k = map_of b k"
    proof (cases "map_of a k")
      case None
      then have "k \<notin> fst ` set a" by (simp add: map_of_eq_None_iff)
      with eqd have "k \<notin> fst ` set b" by simp
      then have "map_of b k = None" by (simp add: map_of_eq_None_iff)
      with None show ?thesis by simp
    next
      case (Some v)
      then have "(k, v) \<in> set a" by (rule map_of_SomeD)
      from s [OF this] Some show ?thesis by simp
    qed
  qed
qed

lemma map_of_items:
  assumes c: "consistent rd"
  shows "map_of (dict_of [] (map (\<lambda>k. (k, projr (getitem rd k))) (iter rd))) = contents rd"
proof
  fix k
  let ?f = "\<lambda>k. projr (getitem rd k)"
  have m: "map_of (rev (map (\<lambda>k. (k, ?f k)) (iter rd))) k =
           (if k \<in> set (iter rd) then Some (?f k) else None)"
    by (simp add: rev_map map_of_map_restrict restrict_map_def)
  have i: "k \<in> set (iter rd) \<longleftrightarrow> present rd k" using present_set [of rd] by (auto simp: iter_def)
  show "map_of (dict_of [] (map (\<lambda>k. (k, ?f k)) (iter rd))) k = contents rd k"
  proof (cases "present rd k")
    case True
    from getitem_present [OF c True] obtain v where "getitem rd k = Inr v" ..
    then show ?thesis using True i m by (simp add: map_of_dict_of contents_def)
  next
    case False
    then show ?thesis using i m by (simp add: map_of_dict_of contents_def getitem_absent)
  qed
qed

lemma contents_eq_iff:
  assumes c1: "consistent rd1" and c2: "consistent rd2"
  shows "contents rd1 = contents rd2 \<longleftrightarrow> (\<forall>k. getitem rd1 k = getitem rd2 k)"
proof
  assume "\<forall>k. getitem rd1 k = getitem rd2 k"
  then show "contents rd1 = contents rd2" by (simp add: contents_def fun_eq_iff)
next
  assume e: "contents rd1 = contents rd2"
  show "\<forall>k. getitem rd1 k = getitem rd2 k"
  proof
    fix k
    from e have ek: "contents rd1 k = contents rd2 k" by simp
    show "getitem rd1 k = getitem rd2 k"
    proof (cases "present rd1 k")
      case True
      from getitem_present [OF c1 True] obtain v where g1: "getitem rd1 k = Inr v" ..
      with ek have "contents rd2 k = Some v" by (simp add: contents_def)
      then have "getitem rd2 k = Inr v" by (simp add: contents_def split: sum.splits)
      with g1 show ?thesis by simp
    next
      case False
      then have g1: "getitem rd1 k = Inl (KeyError (ArgKey k))" by (rule getitem_absent)
      with ek have n: "contents rd2 k = None" by (simp add: contents_def)
      have "\<not> present rd2 k"
      proof
        assume "present rd2 k"
        from getitem_present [OF c2 this] obtain v where "getitem rd2 k = Inr v" ..
        with n show False by (simp add: contents_def)
      qed
      then show ?thesis using g1 by (simp add: getitem_absent)
    qed
  qed
qed

lemma eq_consistent:
  assumes c1: "consistent rd1" and c2: "consistent rd2"
  shows "eq rd1 rd2 = Inr (\<forall>k. getitem rd1 k = getitem rd2 k)"
proof -
  let ?a = "dict_of [] (map (\<lambda>k. (k, projr (getitem rd1 k))) (iter rd1))"
  let ?b = "dict_of [] (map (\<lambda>k. (k, projr (getitem rd2 k))) (iter rd2))"
  have "dict_eq ?a ?b \<longleftrightarrow> map_of ?a = map_of ?b"
    by (rule dict_eq_iff) (simp_all add: distinct_dict_of)
  then have "dict_eq ?a ?b \<longleftrightarrow> (\<forall>k. getitem rd1 k = getitem rd2 k)"
    by (simp only: map_of_items [OF c1] map_of_items [OF c2] contents_eq_iff [OF c1 c2])
  then show ?thesis by (simp add: eq_def items_consistent [OF c1] items_consistent [OF c2])
qed

lemma same_bindings_iff:
  assumes c1: "consistent rd1" and c2: "consistent rd2"
  shows "(\<forall>k. getitem rd1 k = getitem rd2 k) \<longleftrightarrow>
         (\<forall>k. present rd1 k \<longleftrightarrow> present rd2 k) \<and>
         (\<forall>k. present rd1 k \<longrightarrow> getitem rd1 k = getitem rd2 k)"
proof
  assume a: "\<forall>k. getitem rd1 k = getitem rd2 k"
  then show "(\<forall>k. present rd1 k \<longleftrightarrow> present rd2 k) \<and>
         (\<forall>k. present rd1 k \<longrightarrow> getitem rd1 k = getitem rd2 k)"
    by (simp add: present_iff_getitem [OF c1] present_iff_getitem [OF c2])
next
  assume a: "(\<forall>k. present rd1 k \<longleftrightarrow> present rd2 k) \<and>
         (\<forall>k. present rd1 k \<longrightarrow> getitem rd1 k = getitem rd2 k)"
  show "\<forall>k. getitem rd1 k = getitem rd2 k"
  proof
    fix k
    show "getitem rd1 k = getitem rd2 k"
    proof (cases "present rd1 k")
      case True
      with a show ?thesis by simp
    next
      case False
      with a have "\<not> present rd2 k" by simp
      with False show ?thesis by (simp add: getitem_absent)
    qed
  qed
qed

section \<open>An assignment through one of two separate instances\<close>

lemma h_setitem_step:
  assumes va: "valid h a" and sep: "separate h a b"
    and ca: "consistent (load h a)" and cb: "consistent (load h b)"
  shows "\<exists>h2. h_setitem h a k v = (Inr (), h2) \<and> valid h2 a \<and> h_getitem h2 a k = Inr v \<and>
           consistent (load h2 a) \<and> load h2 b = load h b \<and>
           (\<forall>old. getitem (load h b) k = Inr old \<and> v \<noteq> old \<longrightarrow>
                h_eq h2 a b = Inr False \<and> h_eq h2 b a = Inr False)"
proof -
  from setitem_ok [OF ca, of k v] obtain rd'
    where s: "setitem (load h a) k v = (Inr (), rd')" and c': "consistent rd'" by blast
  let ?h2 = "store h a rd'"
  have la: "load ?h2 a = rd'" by (rule load_store_same [OF va])
  have lb: "load ?h2 b = load h b"
    using sep by (simp add: separate_def load_store_other)
  have g: "getitem rd' k = Inr v" using setitem_getitem_same [OF ca, of k v] s by simp
  have ne: "\<And>old. getitem (load h b) k = Inr old \<Longrightarrow> v \<noteq> old \<Longrightarrow>
      \<not> (\<forall>k. getitem rd' k = getitem (load h b) k) \<and> \<not> (\<forall>k. getitem (load h b) k = getitem rd' k)"
    using g by (metis sum.inject(2))
  have "h_setitem h a k v = (Inr (), ?h2)" by (simp add: h_setitem_def s)
  moreover have "valid ?h2 a" by (rule valid_store [OF va])
  moreover have "h_getitem ?h2 a k = Inr v" by (simp add: h_getitem_def la g)
  moreover have "consistent (load ?h2 a)" by (simp add: la c')
  moreover have "\<forall>old. getitem (load h b) k = Inr old \<and> v \<noteq> old \<longrightarrow>
                h_eq ?h2 a b = Inr False \<and> h_eq ?h2 b a = Inr False"
    using ne by (simp add: h_eq_def la lb eq_consistent [OF c' cb] eq_consistent [OF cb c'])
  ultimately show ?thesis using lb by blast
qed

lemma separate_sym: "separate h a b \<Longrightarrow> separate h b a"
  by (auto simp: separate_def)

section \<open>A copy and its source\<close>

lemma valid_h0: "valid h0 0" by (simp add: valid_def h0_def)

lemma load_h0: "load h0 0 = abc" by (simp add: load_def h0_def abc_def)

lemma invar_cba: "invar cba"
  by (simp add: cba_def invar_def dict_ok_def I1_def I2_def I3_def len_def getitem_def
      list_getitem_def norm_index_def upto3)

lemma eq_invar:
  assumes "invar rd1" and "invar rd2"
  shows "eq rd1 rd2 = Inr ((\<forall>k. present rd1 k \<longleftrightarrow> present rd2 k) \<and>
                          (\<forall>k. present rd1 k \<longrightarrow> getitem rd1 k = getitem rd2 k))"
proof -
  from assms have c1: "consistent rd1" and c2: "consistent rd2" by (simp_all add: invar_iff)
  show ?thesis by (simp only: eq_consistent [OF c1 c2] same_bindings_iff [OF c1 c2])
qed

lemma copy_then_set:
  assumes v: "valid h c1" and i: "invar (load h c1)"
  shows "\<exists>c2 h1. copy h c1 = Inr (c2, h1) \<and> c2 \<noteq> c1 \<and>
           h_eq h1 c1 c2 = Inr True \<and> h_eq h1 c2 c1 = Inr True \<and>
           (\<forall>k. h_getitem h1 c1 k = h_getitem h c1 k) \<and>
           (\<forall>k v. \<exists>h2. h_setitem h1 c2 k v = (Inr (), h2) \<and> h_getitem h2 c2 k = Inr v \<and>
                (\<forall>k'. h_getitem h2 c1 k' = h_getitem h c1 k') \<and>
                (\<forall>old. h_getitem h c1 k = Inr old \<and> v \<noteq> old \<longrightarrow>
                    h_eq h2 c1 c2 = Inr False \<and> h_eq h2 c2 c1 = Inr False)) \<and>
           (\<forall>k v. \<exists>h2. h_setitem h1 c1 k v = (Inr (), h2) \<and> h_getitem h2 c1 k = Inr v \<and>
                (\<forall>k'. h_getitem h2 c2 k' = h_getitem h c1 k') \<and>
                (\<forall>old. h_getitem h c1 k = Inr old \<and> v \<noteq> old \<longrightarrow>
                    h_eq h2 c1 c2 = Inr False \<and> h_eq h2 c2 c1 = Inr False))"
proof -
  from i have c: "consistent (load h c1)" by (rule invar_consistent)
  from copy_result [OF v] obtain c2 h1 where
    cp: "copy h c1 = Inr (c2, h1)" and v1: "valid h1 c1" and v2: "valid h1 c2"
    and sep: "separate h1 c1 c2" and l1: "load h1 c1 = load h c1" and l2: "load h1 c2 = load h c1"
    by blast
  have ne: "c2 \<noteq> c1" using sep by (auto simp: separate_def)
  have e: "h_eq h1 c1 c2 = Inr True" "h_eq h1 c2 c1 = Inr True"
    by (simp_all add: h_eq_def l1 l2 eq_consistent [OF c c])
  have g: "\<forall>k. h_getitem h1 c1 k = h_getitem h c1 k" by (simp add: h_getitem_def l1)
  have c1': "consistent (load h1 c1)" and c2': "consistent (load h1 c2)" by (simp_all add: l1 l2 c)
  have s2: "\<forall>k v. \<exists>h2. h_setitem h1 c2 k v = (Inr (), h2) \<and> h_getitem h2 c2 k = Inr v \<and>
                (\<forall>k'. h_getitem h2 c1 k' = h_getitem h c1 k') \<and>
                (\<forall>old. h_getitem h c1 k = Inr old \<and> v \<noteq> old \<longrightarrow>
                    h_eq h2 c1 c2 = Inr False \<and> h_eq h2 c2 c1 = Inr False)"
  proof (intro allI)
    fix k v
    from h_setitem_step [OF v2 separate_sym [OF sep] c2' c1', of k v] obtain h2 where
      a: "h_setitem h1 c2 k v = (Inr (), h2)" and b: "h_getitem h2 c2 k = Inr v"
      and d: "load h2 c1 = load h1 c1"
      and f: "\<forall>old. getitem (load h1 c1) k = Inr old \<and> v \<noteq> old \<longrightarrow>
                h_eq h2 c2 c1 = Inr False \<and> h_eq h2 c1 c2 = Inr False"
      by blast
    have "\<forall>k'. h_getitem h2 c1 k' = h_getitem h c1 k'" by (simp add: h_getitem_def d l1)
    moreover have "\<forall>old. h_getitem h c1 k = Inr old \<and> v \<noteq> old \<longrightarrow>
                    h_eq h2 c1 c2 = Inr False \<and> h_eq h2 c2 c1 = Inr False"
      using f by (simp add: h_getitem_def l1)
    ultimately show "\<exists>h2. h_setitem h1 c2 k v = (Inr (), h2) \<and> h_getitem h2 c2 k = Inr v \<and>
                (\<forall>k'. h_getitem h2 c1 k' = h_getitem h c1 k') \<and>
                (\<forall>old. h_getitem h c1 k = Inr old \<and> v \<noteq> old \<longrightarrow>
                    h_eq h2 c1 c2 = Inr False \<and> h_eq h2 c2 c1 = Inr False)"
      using a b by blast
  qed
  have s1: "\<forall>k v. \<exists>h2. h_setitem h1 c1 k v = (Inr (), h2) \<and> h_getitem h2 c1 k = Inr v \<and>
                (\<forall>k'. h_getitem h2 c2 k' = h_getitem h c1 k') \<and>
                (\<forall>old. h_getitem h c1 k = Inr old \<and> v \<noteq> old \<longrightarrow>
                    h_eq h2 c1 c2 = Inr False \<and> h_eq h2 c2 c1 = Inr False)"
  proof (intro allI)
    fix k v
    from h_setitem_step [OF v1 sep c1' c2', of k v] obtain h2 where
      a: "h_setitem h1 c1 k v = (Inr (), h2)" and b: "h_getitem h2 c1 k = Inr v"
      and d: "load h2 c2 = load h1 c2"
      and f: "\<forall>old. getitem (load h1 c2) k = Inr old \<and> v \<noteq> old \<longrightarrow>
                h_eq h2 c1 c2 = Inr False \<and> h_eq h2 c2 c1 = Inr False"
      by blast
    have "\<forall>k'. h_getitem h2 c2 k' = h_getitem h c1 k'" by (simp add: h_getitem_def d l2)
    moreover have "\<forall>old. h_getitem h c1 k = Inr old \<and> v \<noteq> old \<longrightarrow>
                    h_eq h2 c1 c2 = Inr False \<and> h_eq h2 c2 c1 = Inr False"
      using f by (simp add: h_getitem_def l2)
    ultimately show "\<exists>h2. h_setitem h1 c1 k v = (Inr (), h2) \<and> h_getitem h2 c1 k = Inr v \<and>
                (\<forall>k'. h_getitem h2 c2 k' = h_getitem h c1 k') \<and>
                (\<forall>old. h_getitem h c1 k = Inr old \<and> v \<noteq> old \<longrightarrow>
                    h_eq h2 c1 c2 = Inr False \<and> h_eq h2 c2 c1 = Inr False)"
      using a b by blast
  qed
  show ?thesis using cp ne e g s2 s1 by blast
qed

section \<open>Every operation keeps the invariants\<close>

lemma setitem_invar: "invar rd \<Longrightarrow> invar (snd (setitem rd k v))"
  using setitem_ok [of rd k v] by (auto simp: invar_iff)

lemma delitem_invar: "invar rd \<Longrightarrow> invar (snd (delitem rd k))"
proof (cases "present rd k")
  case True
  assume "invar rd"
  then have "consistent rd" by (simp add: invar_iff)
  from delitem_ok [OF this True] show ?thesis by (auto simp: invar_iff)
next
  case False
  assume "invar rd"
  with False show ?thesis by (simp add: present_def delitem_def)
qed

lemma copy_invar:
  assumes v: "valid h c" and i: "invar (load h c)"
  shows "\<exists>c2 h1. copy h c = Inr (c2, h1) \<and> invar (load h1 c2) \<and> invar (load h1 c)"
proof -
  from copy_result [OF v] obtain c2 h1 where
    "copy h c = Inr (c2, h1)" "load h1 c = load h c" "load h1 c2 = load h c" by blast
  with i show ?thesis by simp
qed

lemma init_a: "init [[(''a'', 1::int)]] [(''b'', 2)] =
    Inr \<lparr>rd_keys = [(''a'', 0), (''b'', 1)], rd_values = [(''a'', 1), (''b'', 2)], last_index = 1\<rparr>"
  by (simp add: init_def update_def empty_rd_def setitem_def)

lemma fromkeys_a: "fromkeys [''a'', ''b'', ''a''] (0::int) =
    Inr \<lparr>rd_keys = [(''a'', 0), (''b'', 1)], rd_values = [(''a'', 0), (''b'', 0)], last_index = 1\<rparr>"
  by (simp add: fromkeys_def init_empty empty_rd_def setitem_def list_setitem_def norm_index_def)

section \<open>One error kind for the empty container and for a missing key\<close>

text \<open>
  C10. \<^verbatim>\<open>random_key\<close> on any container of length 0 raises KeyError, and
  \<^verbatim>\<open>__getitem__\<close> and \<^verbatim>\<open>__delitem__\<close> on any container, empty or not, raise
  KeyError for a key that is absent from it: the same exception type in all three
  places. Only the attached argument differs, a fixed message for the empty
  container against the missing key itself, so a caller catching by type cannot tell
  the two failures apart. The failing \<^verbatim>\<open>__delitem__\<close> returns the state it was
  given.
\<close>

theorem empty_and_missing_raise_KeyError:
  "len rd1 = 0 \<Longrightarrow> \<not> present rd2 k \<Longrightarrow>
     (\<exists>e1 e2 e3.
        random_key rd1 i = Inl e1 \<and> getitem rd2 k = Inl e2 \<and> delitem rd2 k = (Inl e3, rd2) \<and>
        is_KeyError e1 \<and> is_KeyError e2 \<and> is_KeyError e3 \<and>
        e1 = KeyError (ArgMsg ''RandomDict is empty'') \<and>
        e2 = KeyError (ArgKey k) \<and> e3 = KeyError (ArgKey k))"
  by (simp add: present_def random_key_def getitem_def delitem_def)

theorem empty_and_missing_raise_KeyError_witness:
  "len (empty_rd :: (string, int) RandomDict) = 0 \<and> \<not> present abc ''z'' \<and> len abc \<noteq> 0 \<and>
   random_key (empty_rd :: (string, int) RandomDict) 0 = Inl (KeyError (ArgMsg ''RandomDict is empty'')) \<and>
   getitem abc ''z'' = Inl (KeyError (ArgKey ''z'')) \<and>
   delitem abc ''z'' = (Inl (KeyError (ArgKey ''z'')), abc)"
proof -
  have h1: "len (empty_rd :: (string, int) RandomDict) = 0"
    by (simp add: len_def empty_rd_def)
  have h2: "\<not> present abc ''z''"
    by (simp add: present_def abc_def)
  have h3: "len abc \<noteq> 0"
    by (simp add: len_def abc_def)
  show ?thesis
    using h1 h2 h3 empty_and_missing_raise_KeyError [OF h1 h2, of 0] by auto
qed

section \<open>Deletion\<close>

text \<open>
  C3. On a container that satisfies the invariants, deleting a present key succeeds,
  the key is absent afterwards (a lookup raises KeyError for it) and the length is
  smaller by exactly 1. Deleting an absent key raises KeyError and returns the very
  state it was given: the lookup in the Index fails before the Index or the Slots are
  touched. The second part needs no invariant.
\<close>

theorem remove_present_or_absent:
  "(invar rd \<and> present rd k \<longrightarrow>
      (\<exists>rd'. delitem rd k = (Inr (), rd') \<and> \<not> present rd' k \<and>
             getitem rd' k = Inl (KeyError (ArgKey k)) \<and> len rd' = len rd - 1)) \<and>
   (\<not> present rd k \<longrightarrow> delitem rd k = (Inl (KeyError (ArgKey k)), rd))"
proof (intro conjI impI)
  assume "invar rd \<and> present rd k"
  then have c: "consistent rd" and pr: "present rd k" by (simp_all add: invar_iff)
  from delitem_ok [OF c pr] obtain rd' where d: "delitem rd k = (Inr (), rd')" by blast
  have np: "\<not> present rd' k" using delitem_removes [OF c pr] d by simp
  then have "getitem rd' k = Inl (KeyError (ArgKey k))" by (simp add: present_def getitem_def)
  moreover have "len rd' = len rd - 1" using delitem_len [OF c pr] d by simp
  ultimately show "\<exists>rd'. delitem rd k = (Inr (), rd') \<and> \<not> present rd' k \<and>
             getitem rd' k = Inl (KeyError (ArgKey k)) \<and> len rd' = len rd - 1"
    using d np by simp
next
  assume "\<not> present rd k"
  then show "delitem rd k = (Inl (KeyError (ArgKey k)), rd)"
    by (simp add: present_def delitem_def)
qed

theorem remove_present_or_absent_witness:
  "invar abc \<and> present abc ''a'' \<and> \<not> present abc ''z'' \<and>
   (\<exists>rd'. delitem abc ''a'' = (Inr (), rd') \<and> \<not> present rd' ''a'' \<and>
          getitem rd' ''a'' = Inl (KeyError (ArgKey ''a'')) \<and> len rd' = 2) \<and>
   delitem abc ''z'' = (Inl (KeyError (ArgKey ''z'')), abc)"
proof -
  have p: "present abc ''a''" and a: "\<not> present abc ''z''" and l: "len abc = 3"
    by (simp_all add: abc_def present_def len_def)
  show ?thesis
    using invar_abc p a l remove_present_or_absent [of abc "''a''"]
      remove_present_or_absent [of abc "''z''"]
    by simp
qed

section \<open>Deletion leaves the other bindings alone\<close>

text \<open>
  C4. On a container that satisfies the invariants, after the deletion of a present key
  every other key that was present is still present, and a lookup returns the value it
  returned before: moving the last slot into the vacated one changes no other binding.
  The witness is the sample scenario of the specification.
\<close>

theorem remove_keeps_other_bindings:
  "invar rd \<Longrightarrow> present rd k \<Longrightarrow> present rd k' \<Longrightarrow> k' \<noteq> k \<Longrightarrow>
     \<exists>rd' v. delitem rd k = (Inr (), rd') \<and> present rd' k' \<and>
            getitem rd k' = Inr v \<and> getitem rd' k' = Inr v"
proof -
  assume i: "invar rd" and pr: "present rd k" and pr': "present rd k'" and ne: "k' \<noteq> k"
  from i have c: "consistent rd" by (rule invar_consistent)
  from delitem_ok [OF c pr] obtain rd' where d: "delitem rd k = (Inr (), rd')" by blast
  from pr' obtain q where "map_of (rd_keys rd) k' = Some q" by (auto simp: present_def)
  then have g: "getitem rd k' = Inr (snd (rd_values rd ! nat q))"
    by (simp add: getitem_consistent [OF c])
  have "present rd' k'" using delitem_present_other [OF c pr ne] pr' d by simp
  moreover have "getitem rd' k' = getitem rd k'" using delitem_getitem_other [OF c pr ne] d by simp
  ultimately show ?thesis using d g by simp
qed

theorem remove_keeps_other_bindings_witness:
  "invar abc \<and> present abc ''a'' \<and> present abc ''b'' \<and> present abc ''c'' \<and>
   (\<exists>rd'. delitem abc ''a'' = (Inr (), rd') \<and> len rd' = 2 \<and>
      getitem rd' ''b'' = Inr 2 \<and> getitem rd' ''c'' = Inr 3 \<and>
      getitem rd' ''a'' = Inl (KeyError (ArgKey ''a'')))"
proof -
  have p: "present abc ''a''" "present abc ''b''" "present abc ''c''"
    by (simp_all add: abc_def present_def)
  have g: "getitem abc ''b'' = Inr 2" "getitem abc ''c'' = Inr 3"
    by (simp_all add: abc_def getitem_def list_getitem_def norm_index_def)
  have b: "\<exists>rd' v. delitem abc ''a'' = (Inr (), rd') \<and> present rd' ''b'' \<and>
            getitem abc ''b'' = Inr v \<and> getitem rd' ''b'' = Inr v"
    using remove_keeps_other_bindings [OF invar_abc p(1) p(2)] by simp
  have c: "\<exists>rd' v. delitem abc ''a'' = (Inr (), rd') \<and> present rd' ''c'' \<and>
            getitem abc ''c'' = Inr v \<and> getitem rd' ''c'' = Inr v"
    using remove_keeps_other_bindings [OF invar_abc p(1) p(3)] by simp
  have a: "getitem (snd (delitem abc ''a'')) ''a'' = Inl (KeyError (ArgKey ''a''))"
      "len (snd (delitem abc ''a'')) = 2"
    by (simp_all add: delitem_abc getitem_def len_def)
  show ?thesis using invar_abc p g a b c by auto
qed

section \<open>Insertion and overwrite\<close>

text \<open>
  C5. On a container that satisfies the invariants, \<^verbatim>\<open>d[k] = v\<close> succeeds and a
  lookup of \<open>k\<close> then returns \<open>v\<close>. The length grows by exactly 1 when \<open>k\<close> was absent
  and stays the same when \<open>k\<close> was present; in that case the Index is unchanged (so the
  key keeps its slot) and only that slot of the Slots is overwritten.
\<close>

theorem set_then_get:
  "invar rd \<Longrightarrow>
     \<exists>rd'. setitem rd k v = (Inr (), rd') \<and> getitem rd' k = Inr v \<and>
       len rd' = (if present rd k then len rd else len rd + 1) \<and>
       (present rd k \<longrightarrow>
          rd_keys rd' = rd_keys rd \<and>
          (\<exists>p. map_of (rd_keys rd) k = Some p \<and> 0 \<le> p \<and> p < len rd \<and>
               rd_values rd' = (rd_values rd)[nat p := (k, v)]))"
proof -
  assume i: "invar rd"
  from i have c: "consistent rd" by (rule invar_consistent)
  from setitem_ok [OF c] obtain rd' where s: "setitem rd k v = (Inr (), rd')" by blast
  have g: "getitem rd' k = Inr v" using setitem_getitem_same [OF c, of k v] s by simp
  have l: "len rd' = (if present rd k then len rd else len rd + 1)"
    using setitem_len [OF c, of k v] s by simp
  have "present rd k \<longrightarrow>
          rd_keys rd' = rd_keys rd \<and>
          (\<exists>p. map_of (rd_keys rd) k = Some p \<and> 0 \<le> p \<and> p < len rd \<and>
               rd_values rd' = (rd_values rd)[nat p := (k, v)])"
  proof
    assume "present rd k"
    then obtain p where m: "map_of (rd_keys rd) k = Some p" by (auto simp: present_def)
    with c have "0 \<le> p" "nat p < length (rd_values rd)" unfolding consistent_def by blast+
    then have "0 \<le> p \<and> p < len rd" by (simp add: consistent_len [OF c] nat_less_iff)
    with setitem_present [OF c m, of v] s m
    show "rd_keys rd' = rd_keys rd \<and>
          (\<exists>p. map_of (rd_keys rd) k = Some p \<and> 0 \<le> p \<and> p < len rd \<and>
               rd_values rd' = (rd_values rd)[nat p := (k, v)])"
      by auto
  qed
  with s g l show ?thesis by blast
qed

theorem set_then_get_witness:
  "invar abc \<and>
   (\<exists>rd'. setitem abc ''b'' 7 = (Inr (), rd') \<and> getitem rd' ''b'' = Inr 7 \<and> len rd' = 3) \<and>
   (\<exists>rd'. setitem abc ''d'' 4 = (Inr (), rd') \<and> getitem rd' ''d'' = Inr 4 \<and> len rd' = 4)"
proof -
  have p: "present abc ''b''" "\<not> present abc ''d''" "len abc = 3"
    by (simp_all add: abc_def present_def len_def)
  show ?thesis
    using invar_abc p set_then_get [OF invar_abc, of "''b''" 7] set_then_get [OF invar_abc, of "''d''" 4]
    by auto
qed

section \<open>Random selection of a key\<close>

text \<open>
  C1. \<^verbatim>\<open>random_key\<close> raises KeyError (the empty-container failure) when the
  length is 0. On a non-empty container that satisfies the invariants, the integers
  the draw can produce are exactly those from 0 up to the count; for every such draw
  \<^verbatim>\<open>random_key\<close> returns the key stored at that slot, which is a present key; and
  every present key is returned for exactly one draw. So no present key is excluded,
  whatever insertions and deletions led to the state, and a draw that is uniform over
  its range selects uniformly among the present keys.
\<close>

theorem random_key_draws:
  "(len rd = 0 \<longrightarrow> random_key rd i = Inl (KeyError (ArgMsg ''RandomDict is empty''))) \<and>
   (invar rd \<and> len rd \<noteq> 0 \<longrightarrow>
      randint_range 0 (last_index rd) = {0..<len rd} \<and>
      (\<forall>j \<in> randint_range 0 (last_index rd).
          random_key rd j = Inr (fst (rd_values rd ! nat j)) \<and>
          present rd (fst (rd_values rd ! nat j))) \<and>
      (\<forall>k. present rd k \<longrightarrow>
          (\<exists>!j. j \<in> randint_range 0 (last_index rd) \<and> random_key rd j = Inr k)))"
proof (intro conjI impI)
  assume "len rd = 0"
  then show "random_key rd i = Inl (KeyError (ArgMsg ''RandomDict is empty''))"
    by (simp add: random_key_def)
next
  show "randint_range 0 (last_index rd) = {0..<len rd}" by (rule randint_range_len)
next
  assume "invar rd \<and> len rd \<noteq> 0"
  then have c: "consistent rd" by (simp add: invar_iff)
  show "\<forall>j \<in> randint_range 0 (last_index rd).
          random_key rd j = Inr (fst (rd_values rd ! nat j)) \<and>
          present rd (fst (rd_values rd ! nat j))"
    using random_key_slot [OF c] by (simp add: present_def)
next
  assume "invar rd \<and> len rd \<noteq> 0"
  then have c: "consistent rd" by (simp add: invar_iff)
  show "\<forall>k. present rd k \<longrightarrow>
          (\<exists>!j. j \<in> randint_range 0 (last_index rd) \<and> random_key rd j = Inr k)"
    using random_key_reaches [OF c] by blast
qed

theorem random_key_draws_witness:
  "len (empty_rd :: (string, int) RandomDict) = 0 \<and>
   random_key (empty_rd :: (string, int) RandomDict) 0 = Inl (KeyError (ArgMsg ''RandomDict is empty'')) \<and>
   invar abc \<and> len abc \<noteq> 0 \<and> randint_range 0 (last_index abc) = {0..<3} \<and>
   (1::int) \<in> randint_range 0 (last_index abc) \<and> random_key abc 1 = Inr ''b'' \<and>
   present abc ''c'' \<and>
   (\<exists>!j. j \<in> randint_range 0 (last_index abc) \<and> random_key abc j = Inr ''c'')"
proof -
  have a: "random_key (empty_rd :: (string, int) RandomDict) 0 = Inl (KeyError (ArgMsg ''RandomDict is empty''))"
    using random_key_draws [of "empty_rd :: (string, int) RandomDict" 0] len_empty_rd by simp
  have n: "len abc \<noteq> 0" by (simp add: len_abc)
  have one: "(1::int) \<in> randint_range 0 (last_index abc)" by (simp add: randint_range_def abc_def)
  have pc: "present abc ''c''" by (simp add: present_def abc_def)
  have v: "fst (rd_values abc ! nat 1) = ''b''" by (simp add: abc_def)
  from random_key_draws [of abc 0] invar_abc n
  have r: "randint_range 0 (last_index abc) = {0..<len abc}"
    and s: "\<forall>j \<in> randint_range 0 (last_index abc).
          random_key abc j = Inr (fst (rd_values abc ! nat j))"
    and u: "\<forall>k. present abc k \<longrightarrow>
          (\<exists>!j. j \<in> randint_range 0 (last_index abc) \<and> random_key abc j = Inr k)"
    by blast+
  from s one v have b: "random_key abc 1 = Inr ''b''" by (metis)
  from u pc have d: "\<exists>!j. j \<in> randint_range 0 (last_index abc) \<and> random_key abc j = Inr ''c''" by blast
  show ?thesis using len_empty_rd a invar_abc n r one b pc d by (simp add: len_abc)
qed

section \<open>Random selection of a value or an item, and the empty container\<close>

text \<open>
  C6, as stated, fails: \<^verbatim>\<open>pop\<close> with a default is a pop-style call, and on an
  empty container it returns the default instead of raising.
\<close>

theorem pop_default_on_empty_counterexample:
  "len (empty_rd :: (string, int) RandomDict) = 0 \<and>
   invar (empty_rd :: (string, int) RandomDict) \<and>
   pop (empty_rd :: (string, int) RandomDict) ''a'' (Some 0) = (Inr 0, empty_rd)"
  by (simp add: len_def empty_rd_def invar_def dict_ok_def I1_def I2_def I3_def
      pop_def getitem_def)

text \<open>
  C6, amended. \<^verbatim>\<open>random_value\<close> and \<^verbatim>\<open>random_item\<close> are derived from
  \<^verbatim>\<open>random_key\<close>: on a non-empty container that satisfies the invariants, for
  every draw in range, \<^verbatim>\<open>random_item\<close> returns the key that \<^verbatim>\<open>random_key\<close>
  yields for that draw paired with the value a lookup of that key returns, and
  \<^verbatim>\<open>random_value\<close> returns that value. On an empty container
  \<^verbatim>\<open>random_key\<close>, \<^verbatim>\<open>random_value\<close> and \<^verbatim>\<open>random_item\<close> raise the
  empty-container KeyError, and the pop-style calls made without a default,
  \<^verbatim>\<open>popitem()\<close> and \<^verbatim>\<open>pop(k)\<close>, raise KeyError as well and leave the state
  as it was; \<^verbatim>\<open>pop(k, d)\<close> returns the default \<open>d\<close> and leaves the state as it
  was.
\<close>

theorem random_value_item_derived:
  "(len rd = 0 \<longrightarrow>
      random_key rd i = Inl (KeyError (ArgMsg ''RandomDict is empty'')) \<and>
      random_value rd i = Inl (KeyError (ArgMsg ''RandomDict is empty'')) \<and>
      random_item rd i = Inl (KeyError (ArgMsg ''RandomDict is empty''))) \<and>
   (invar rd \<and> len rd = 0 \<longrightarrow>
      popitem rd = (Inl (KeyError NoArg), rd) \<and>
      pop rd k None = (Inl (KeyError (ArgKey k)), rd) \<and>
      pop rd k (Some d) = (Inr d, rd)) \<and>
   (invar rd \<and> len rd \<noteq> 0 \<and> i \<in> randint_range 0 (last_index rd) \<longrightarrow>
      (\<exists>key v. random_key rd i = Inr key \<and> getitem rd key = Inr v \<and>
              random_value rd i = Inr v \<and> random_item rd i = Inr (key, v)))"
proof (intro conjI impI)
  assume "len rd = 0"
  then show "random_key rd i = Inl (KeyError (ArgMsg ''RandomDict is empty''))"
    "random_value rd i = Inl (KeyError (ArgMsg ''RandomDict is empty''))"
    "random_item rd i = Inl (KeyError (ArgMsg ''RandomDict is empty''))"
    by (simp_all add: random_key_def random_value_def random_item_def)
next
  assume "invar rd \<and> len rd = 0"
  then have e: "rd_keys rd = []" using empty_no_keys [of rd] by (simp add: invar_iff)
  show "popitem rd = (Inl (KeyError NoArg), rd)" by (simp add: popitem_def iter_def e)
  show "pop rd k None = (Inl (KeyError (ArgKey k)), rd)" by (simp add: pop_def getitem_def e)
  show "pop rd k (Some d) = (Inr d, rd)" by (simp add: pop_def getitem_def e)
next
  assume a: "invar rd \<and> len rd \<noteq> 0 \<and> i \<in> randint_range 0 (last_index rd)"
  then have c: "consistent rd" and i: "i \<in> randint_range 0 (last_index rd)"
    by (simp_all add: invar_iff)
  let ?k = "fst (rd_values rd ! nat i)"
  have k: "random_key rd i = Inr ?k" by (rule random_key_slot(1) [OF c i])
  have g: "getitem rd ?k = Inr (snd (rd_values rd ! nat i))"
    using random_key_slot(2) [OF c i] by (simp add: getitem_consistent [OF c])
  show "\<exists>key v. random_key rd i = Inr key \<and> getitem rd key = Inr v \<and>
              random_value rd i = Inr v \<and> random_item rd i = Inr (key, v)"
    using k g by (simp add: random_value_def random_item_def)
qed

theorem random_value_item_derived_witness:
  "len (empty_rd :: (string, int) RandomDict) = 0 \<and> invar (empty_rd :: (string, int) RandomDict) \<and>
   random_value (empty_rd :: (string, int) RandomDict) 0 = Inl (KeyError (ArgMsg ''RandomDict is empty'')) \<and>
   random_item (empty_rd :: (string, int) RandomDict) 0 = Inl (KeyError (ArgMsg ''RandomDict is empty'')) \<and>
   popitem (empty_rd :: (string, int) RandomDict) = (Inl (KeyError NoArg), empty_rd) \<and>
   pop (empty_rd :: (string, int) RandomDict) ''a'' None = (Inl (KeyError (ArgKey ''a'')), empty_rd) \<and>
   pop (empty_rd :: (string, int) RandomDict) ''a'' (Some 5) = (Inr 5, empty_rd) \<and>
   invar abc \<and> len abc \<noteq> 0 \<and> (2::int) \<in> randint_range 0 (last_index abc) \<and>
   random_key abc 2 = Inr ''c'' \<and> getitem abc ''c'' = Inr 3 \<and>
   random_value abc 2 = Inr 3 \<and> random_item abc 2 = Inr (''c'', 3)"
proof -
  have ie: "invar (empty_rd :: (string, int) RandomDict)"
    by (simp add: invar_def dict_ok_def I1_def I2_def I3_def len_def empty_rd_def)
  have n: "len abc \<noteq> 0" by (simp add: len_abc)
  have two: "(2::int) \<in> randint_range 0 (last_index abc)" by (simp add: randint_range_def abc_def)
  have k: "random_key abc 2 = Inr ''c''"
    by (simp add: random_key_def abc_def len_def list_getitem_def norm_index_def)
  have g: "getitem abc ''c'' = Inr 3"
    by (simp add: getitem_def abc_def list_getitem_def norm_index_def)
  from random_value_item_derived [of "empty_rd :: (string, int) RandomDict" 0 "''a''" 5] len_empty_rd ie
  have e: "random_value (empty_rd :: (string, int) RandomDict) 0 = Inl (KeyError (ArgMsg ''RandomDict is empty''))"
    "random_item (empty_rd :: (string, int) RandomDict) 0 = Inl (KeyError (ArgMsg ''RandomDict is empty''))"
    "popitem (empty_rd :: (string, int) RandomDict) = (Inl (KeyError NoArg), empty_rd)"
    "pop (empty_rd :: (string, int) RandomDict) ''a'' None = (Inl (KeyError (ArgKey ''a'')), empty_rd)"
    "pop (empty_rd :: (string, int) RandomDict) ''a'' (Some 5) = (Inr 5, empty_rd)"
    by simp_all
  from random_value_item_derived [of abc 2 "''a''" 5] invar_abc n two
  have "\<exists>key v. random_key abc 2 = Inr key \<and> getitem abc key = Inr v \<and>
              random_value abc 2 = Inr v \<and> random_item abc 2 = Inr (key, v)" by simp
  with k g have f: "random_value abc 2 = Inr 3" "random_item abc 2 = Inr (''c'', 3)" by auto
  show ?thesis using len_empty_rd ie e invar_abc n two k g f by simp
qed

section \<open>The factory \<^verbatim>\<open>fromkeys\<close>\<close>

text \<open>
  C9. For every list of keys and every value, \<^verbatim>\<open>fromkeys\<close> returns a container
  that satisfies the invariants, in which every listed key is present and maps to the
  value, no other key is present, and whose length is the number of distinct listed
  keys. The witness is \<^verbatim>\<open>fromkeys(["a","b","c"], 0)\<close>: length 3, every key bound
  to 0.
\<close>

theorem fromkeys_binds_all:
  "\<exists>rd. fromkeys (ks :: 'k list) (v :: 'v) = Inr rd \<and> invar rd \<and>
     (\<forall>k \<in> set ks. present rd k \<and> getitem rd k = Inr v) \<and>
     (\<forall>k. present rd k \<longrightarrow> k \<in> set ks) \<and>
     len rd = int (card (set ks))"
  by (rule fromkeys_result)

theorem fromkeys_binds_all_witness:
  "\<exists>rd. fromkeys [''a'', ''b'', ''c''] (0::int) = Inr rd \<and> len rd = 3 \<and>
      getitem rd ''a'' = Inr 0 \<and> getitem rd ''b'' = Inr 0 \<and> getitem rd ''c'' = Inr 0"
proof -
  have "card (set [''a'', ''b'', ''c'']) = 3" by simp
  then show ?thesis using fromkeys_binds_all [of "[''a'', ''b'', ''c'']" "0::int"] by auto
qed

section \<open>Construction from sources\<close>




section \<open>The invariants hold after every operation\<close>

text \<open>
  C2. A state that satisfies the invariants satisfies I1, I2 and I3: every key of the
  Index points at a valid position whose slot holds that key and the value a lookup
  returns; the positions in use are exactly the range from 0 up to the count; the
  reported length is the number of slots and the number of keys of the Index. The
  invariants hold again after \<^verbatim>\<open>__setitem__\<close> and after \<^verbatim>\<open>__delitem__\<close>
  (whether it succeeds or raises), they hold for every container that
  \<^verbatim>\<open>__init__\<close> or \<^verbatim>\<open>fromkeys\<close> returns, and \<^verbatim>\<open>copy\<close> of an instance that
  satisfies them returns one that satisfies them and leaves the source satisfying
  them. Lookup, length and random selection assign nothing: they are functions of the
  state, which is the same after them as before.
\<close>

theorem invariants_preserved:
  "(invar rd \<longrightarrow>
      I1 rd \<and> I2 rd \<and> I3 rd \<and>
      invar (snd (setitem rd k v)) \<and> invar (snd (delitem rd k))) \<and>
   (\<forall>rd'. init args kwargs = Inr rd' \<longrightarrow> invar rd') \<and>
   (\<forall>rd'. fromkeys ks w = Inr rd' \<longrightarrow> invar rd') \<and>
   (valid h c \<and> invar (load h c) \<longrightarrow>
      (\<exists>c2 h1. copy h c = Inr (c2, h1) \<and> invar (load h1 c2) \<and> invar (load h1 c)))"
proof (intro conjI impI allI)
  assume "invar rd"
  then show "I1 rd" "I2 rd" "I3 rd" by (simp_all add: invar_def)
next
  assume "invar rd"
  then show "invar (snd (setitem rd k v))" by (rule setitem_invar)
next
  assume "invar rd"
  then show "invar (snd (delitem rd k))" by (rule delitem_invar)
next
  fix rd' assume "init args kwargs = Inr rd'"
  then show "invar rd'" by (rule init_invar)
next
  fix rd' assume "fromkeys ks w = Inr rd'"
  then show "invar rd'" by (rule fromkeys_invar)
next
  assume "valid h c \<and> invar (load h c)"
  then show "\<exists>c2 h1. copy h c = Inr (c2, h1) \<and> invar (load h1 c2) \<and> invar (load h1 c)"
    using copy_invar by blast
qed

theorem invariants_preserved_witness:
  "invar abc \<and> I1 abc \<and> I2 abc \<and> I3 abc \<and>
   invar (snd (setitem abc ''d'' 4)) \<and> invar (snd (delitem abc ''a'')) \<and>
   invar \<lparr>rd_keys = [(''a'', 0), (''b'', 1)], rd_values = [(''a'', 1::int), (''b'', 2)], last_index = 1\<rparr> \<and>
   invar \<lparr>rd_keys = [(''a'', 0), (''b'', 1)], rd_values = [(''a'', 0::int), (''b'', 0)], last_index = 1\<rparr> \<and>
   valid h0 0 \<and> invar (load h0 0) \<and>
   (\<exists>c2 h1. copy h0 0 = Inr (c2, h1) \<and> invar (load h1 c2) \<and> invar (load h1 0))"
proof -
  have il: "invar (load h0 0)" by (simp add: load_h0 invar_abc)
  note t = invariants_preserved [of abc "''d''" 4 "[[(''a'', 1::int)]]" "[(''b'', 2)]"
      "[''a'', ''b'', ''a'']" "0::int" h0 0]
  note u = invariants_preserved [of abc "''a''" 4 "[[(''a'', 1::int)]]" "[(''b'', 2)]"
      "[''a'', ''b'', ''a'']" "0::int" h0 0]
  from t invar_abc have a: "I1 abc" "I2 abc" "I3 abc" "invar (snd (setitem abc ''d'' 4))" by simp_all
  from u invar_abc have b: "invar (snd (delitem abc ''a''))" by simp
  from t init_a have c: "invar \<lparr>rd_keys = [(''a'', 0), (''b'', 1)], rd_values = [(''a'', 1::int), (''b'', 2)], last_index = 1\<rparr>"
    by blast
  from t fromkeys_a have d: "invar \<lparr>rd_keys = [(''a'', 0), (''b'', 1)], rd_values = [(''a'', 0::int), (''b'', 0)], last_index = 1\<rparr>"
    by blast
  from t valid_h0 il have e: "\<exists>c2 h1. copy h0 0 = Inr (c2, h1) \<and> invar (load h1 c2) \<and> invar (load h1 0)"
    by blast
  show ?thesis using invar_abc a b c d valid_h0 il e by blast
qed

section \<open>Copy and equality\<close>

text \<open>
  C8. Two containers that satisfy the invariants compare equal exactly when they have
  the same keys and equal values for them; the slot layout plays no part. For an
  instance in the store that satisfies the invariants, \<^verbatim>\<open>copy\<close> returns another
  instance that compares equal to it (in both directions) and leaves the lookups of
  the source as they were. The copy has a dict and a list of its own: an assignment
  through the copy succeeds, is seen through the copy, and changes no lookup of the
  source; an assignment through the source changes no lookup of the copy. When the
  assignment gives a shared key a value different from the one it had, the two
  instances no longer compare equal.
\<close>

theorem copy_equal_and_independent:
  "(invar rd1 \<and> invar rd2 \<longrightarrow>
      eq rd1 rd2 = Inr ((\<forall>k. present rd1 k \<longleftrightarrow> present rd2 k) \<and>
                         (\<forall>k. present rd1 k \<longrightarrow> getitem rd1 k = getitem rd2 k))) \<and>
   (valid h c1 \<and> invar (load h c1) \<longrightarrow>
      (\<exists>c2 h1. copy h c1 = Inr (c2, h1) \<and> c2 \<noteq> c1 \<and>
           h_eq h1 c1 c2 = Inr True \<and> h_eq h1 c2 c1 = Inr True \<and>
           (\<forall>k. h_getitem h1 c1 k = h_getitem h c1 k) \<and>
           (\<forall>k v. \<exists>h2. h_setitem h1 c2 k v = (Inr (), h2) \<and> h_getitem h2 c2 k = Inr v \<and>
                (\<forall>k'. h_getitem h2 c1 k' = h_getitem h c1 k') \<and>
                (\<forall>old. h_getitem h c1 k = Inr old \<and> v \<noteq> old \<longrightarrow>
                    h_eq h2 c1 c2 = Inr False \<and> h_eq h2 c2 c1 = Inr False)) \<and>
           (\<forall>k v. \<exists>h2. h_setitem h1 c1 k v = (Inr (), h2) \<and> h_getitem h2 c1 k = Inr v \<and>
                (\<forall>k'. h_getitem h2 c2 k' = h_getitem h c1 k') \<and>
                (\<forall>old. h_getitem h c1 k = Inr old \<and> v \<noteq> old \<longrightarrow>
                    h_eq h2 c1 c2 = Inr False \<and> h_eq h2 c2 c1 = Inr False))))"
  using eq_invar [of rd1 rd2] copy_then_set [of h c1] by blast

theorem copy_equal_and_independent_witness:
  "invar abc \<and> invar cba \<and> eq abc cba = Inr True \<and>
   valid h0 0 \<and> invar (load h0 0) \<and>
   (\<exists>c2 h1. copy h0 0 = Inr (c2, h1) \<and> c2 \<noteq> 0 \<and> h_eq h1 0 c2 = Inr True \<and>
      (\<exists>h2. h_setitem h1 c2 ''a'' 9 = (Inr (), h2) \<and> h_getitem h2 c2 ''a'' = Inr 9 \<and>
            h_getitem h2 0 ''a'' = Inr 1 \<and> h_eq h2 0 c2 = Inr False))"
proof -
  have il: "invar (load h0 0)" by (simp add: load_h0 invar_abc)
  have same: "(\<forall>k. present abc k \<longleftrightarrow> present cba k) \<and>
              (\<forall>k. present abc k \<longrightarrow> getitem abc k = getitem cba k)"
    by (auto simp: present_def abc_def cba_def getitem_def list_getitem_def norm_index_def)
  have g: "h_getitem h0 0 ''a'' = Inr 1"
    by (simp add: h_getitem_def load_h0 abc_def getitem_def list_getitem_def norm_index_def)
  note t = copy_equal_and_independent [of abc cba h0 0]
  from t invar_abc invar_cba same have e: "eq abc cba = Inr True" by simp
  from t valid_h0 il obtain c2 h1 where
    cp: "copy h0 0 = Inr (c2, h1)" and ne: "c2 \<noteq> 0" and e1: "h_eq h1 0 c2 = Inr True"
    and st: "\<forall>k v. \<exists>h2. h_setitem h1 c2 k v = (Inr (), h2) \<and> h_getitem h2 c2 k = Inr v \<and>
                (\<forall>k'. h_getitem h2 0 k' = h_getitem h0 0 k') \<and>
                (\<forall>old. h_getitem h0 0 k = Inr old \<and> v \<noteq> old \<longrightarrow>
                    h_eq h2 0 c2 = Inr False \<and> h_eq h2 c2 0 = Inr False)"
    by blast
  from st obtain h2 where
    a: "h_setitem h1 c2 ''a'' 9 = (Inr (), h2)" and b: "h_getitem h2 c2 ''a'' = Inr 9"
    and d: "\<forall>k'. h_getitem h2 0 k' = h_getitem h0 0 k'"
    and f: "\<forall>old. h_getitem h0 0 ''a'' = Inr old \<and> 9 \<noteq> old \<longrightarrow>
                    h_eq h2 0 c2 = Inr False \<and> h_eq h2 c2 0 = Inr False"
    by blast
  from d g have g2: "h_getitem h2 0 ''a'' = Inr 1" by simp
  from f g have n: "h_eq h2 0 c2 = Inr False" by simp
  show ?thesis using invar_abc invar_cba e valid_h0 il cp ne e1 a b g2 n by blast
qed

end
